theory Spec2Isabelle
  imports Main "HOL-Library.Sublist"
begin

section \<open>Strings and characters\<close>

text \<open>
  A JavaScript string is modelled as a \<open>string\<close> (a list of 8-bit characters), that is,
  the code units below 256. Of the four ECMAScript line terminators (LF, CR, U+2028,
  U+2029) only LF and CR exist in this range.
\<close>

definition bslash :: char where
  "bslash = CHR 0x5C"

definition dquote :: char where
  "dquote = CHR 0x22"

definition isLineTerminator :: "char \<Rightarrow> bool" where
  "isLineTerminator c = (c = CHR 0x0A \<or> c = CHR 0x0D)"

definition isAlnum :: "char \<Rightarrow> bool" where
  "isAlnum c = (let n = of_char c :: nat in
     (48 \<le> n \<and> n \<le> 57) \<or> (65 \<le> n \<and> n \<le> 90) \<or> (97 \<le> n \<and> n \<le> 122))"

section \<open>The regular expressions of the source\<close>

text \<open>
  \<open>index.ts\<close> uses the built-in \<open>RegExp\<close> four times: three pattern literals
  (\<open>hasScriptTag\<close>, \<open>isTs\<close>, \<open>isImportOtherTs\<close>) and one pattern built at run time from
  the exclusion entries (\<open>traverse\<close>). All four are only used through \<open>test\<close>, without
  flags. The fragment of the pattern language modelled here is: pattern characters,
  \<open>.\<close>, \<open>^\<close>, \<open>$\<close>, \<open>|\<close>, groups \<open>(...)\<close> and \<open>(?:...)\<close>, the quantifiers \<open>*\<close>, \<open>+\<close>,
  \<open>?\<close> (greedy or lazy), and a backslash before a character that is neither a letter
  nor a digit (an identity escape). Everything else (classes, braces, the other escapes,
  look-around, named groups) is answered by \<open>RegExpNotModelled\<close>, which is a limit of
  this model and not a behaviour of the program.
\<close>

datatype regex =
    Empty
  | Chr char
  | AnyChar
  | BOL
  | EOL
  | Seq regex regex
  | Alt regex regex
  | Star regex
  | Plus regex
  | Opt regex

datatype error =
    RegExpSyntaxError
  | RegExpNotModelled
  | FileReadError string
  | Thrown string

datatype quant = QStar | QPlus | QOpt

datatype token =
    TAtom regex
  | TAssert regex
  | TQuant quant
  | TBar
  | TOpen
  | TClose
  | TBad error

text \<open>The lexical layer: one token per pattern character, escape or group opener.\<close>

fun tokenize :: "string \<Rightarrow> token list" where
  "tokenize [] = []"
| "tokenize (c # cs) =
     (if c = bslash then
        (case cs of
           [] \<Rightarrow> [TBad RegExpSyntaxError]
         | d # ds \<Rightarrow> (if isAlnum d then [TBad RegExpNotModelled] else TAtom (Chr d) # tokenize ds))
      else if c = CHR ''('' then
        (case cs of
           [] \<Rightarrow> [TOpen]
         | q # qs \<Rightarrow>
             (if q = CHR ''?'' then
                (case qs of
                   [] \<Rightarrow> [TBad RegExpNotModelled]
                 | k # ks \<Rightarrow> (if k = CHR '':'' then TOpen # tokenize ks else [TBad RegExpNotModelled]))
              else TOpen # tokenize cs))
      else if c = CHR '')'' then TClose # tokenize cs
      else if c = CHR ''|'' then TBar # tokenize cs
      else if c = CHR ''*'' then TQuant QStar # tokenize cs
      else if c = CHR ''+'' then TQuant QPlus # tokenize cs
      else if c = CHR ''?'' then TQuant QOpt # tokenize cs
      else if c = CHR ''.'' then TAtom AnyChar # tokenize cs
      else if c = CHR ''^'' then TAssert BOL # tokenize cs
      else if c = CHR ''$'' then TAssert EOL # tokenize cs
      else if c = CHR ''['' \<or> c = CHR '']'' \<or> c = CHR ''{'' \<or> c = CHR ''}''
        then [TBad RegExpNotModelled]
      else TAtom (Chr c) # tokenize cs)"

text \<open>
  The syntactic layer. A frame is one group being read: its finished alternatives, the
  terms of the alternative being read (both most recent first), and whether a quantifier
  may follow.
\<close>

datatype qstate = NoTerm | AtomRead | Quantified

datatype frame = Frame "regex list" "regex list" qstate

fun mkSeq :: "regex list \<Rightarrow> regex" where
  "mkSeq [] = Empty"
| "mkSeq [r] = r"
| "mkSeq (r # rs) = Seq r (mkSeq rs)"

fun mkAlt :: "regex list \<Rightarrow> regex" where
  "mkAlt [] = Empty"
| "mkAlt [r] = r"
| "mkAlt (r # rs) = Alt r (mkAlt rs)"

fun closeFrame :: "frame \<Rightarrow> regex" where
  "closeFrame (Frame alts terms q) = mkAlt (rev (mkSeq (rev terms) # alts))"

fun pushTerm :: "regex \<Rightarrow> qstate \<Rightarrow> frame \<Rightarrow> frame" where
  "pushTerm r q' (Frame alts terms q) = Frame alts (r # terms) q'"

fun nextAlt :: "frame \<Rightarrow> frame" where
  "nextAlt (Frame alts terms q) = Frame (mkSeq (rev terms) # alts) [] NoTerm"

fun applyQuant :: "quant \<Rightarrow> regex \<Rightarrow> regex" where
  "applyQuant QStar r = Star r"
| "applyQuant QPlus r = Plus r"
| "applyQuant QOpt r = Opt r"

fun quantify :: "quant \<Rightarrow> frame \<Rightarrow> frame option" where
  "quantify k (Frame alts (r # terms) AtomRead) = Some (Frame alts (applyQuant k r # terms) Quantified)"
| "quantify QOpt (Frame alts terms Quantified) = Some (Frame alts terms NoTerm)"
| "quantify k f = None"

fun parse :: "frame list \<Rightarrow> frame \<Rightarrow> token list \<Rightarrow> error + regex" where
  "parse [] f [] = Inr (closeFrame f)"
| "parse (g # gs) f [] = Inl RegExpSyntaxError"
| "parse gs f (TOpen # ts) = parse (f # gs) (Frame [] [] NoTerm) ts"
| "parse [] f (TClose # ts) = Inl RegExpSyntaxError"
| "parse (g # gs) f (TClose # ts) = parse gs (pushTerm (closeFrame f) AtomRead g) ts"
| "parse gs f (TBar # ts) = parse gs (nextAlt f) ts"
| "parse gs f (TQuant k # ts) =
     (case quantify k f of None \<Rightarrow> Inl RegExpSyntaxError | Some f' \<Rightarrow> parse gs f' ts)"
| "parse gs f (TAtom r # ts) = parse gs (pushTerm r AtomRead f) ts"
| "parse gs f (TAssert r # ts) = parse gs (pushTerm r NoTerm f) ts"
| "parse gs f (TBad e # ts) = Inl e"

definition compile :: "string \<Rightarrow> error + regex" where
  "compile pattern = parse [] (Frame [] [] NoTerm) (tokenize pattern)"

text \<open>
  Matching. A position is the input still to be read together with a flag telling
  whether nothing has been read yet (so that \<open>^\<close> can be decided). \<open>matchR r p\<close> lists the
  positions at which a match of \<open>r\<close> that starts at \<open>p\<close> can end. A repetition only
  continues from an iteration that has read something, as the language's
  \<open>RepeatMatcher\<close> does, so the length of the remaining input bounds the number of rounds.
\<close>

type_synonym pos = "bool \<times> string"

fun starClosure :: "nat \<Rightarrow> (pos \<Rightarrow> pos list) \<Rightarrow> pos list \<Rightarrow> pos list" where
  "starClosure 0 f ps = ps"
| "starClosure (Suc n) f ps =
     (if ps = [] then []
      else ps @ starClosure n f
        (remdups (concat (map (\<lambda>p. filter (\<lambda>q. length (snd q) < length (snd p)) (f p)) ps))))"

primrec matchR :: "regex \<Rightarrow> pos \<Rightarrow> pos list" where
  "matchR Empty p = [p]"
| "matchR (Chr c) p =
     (case snd p of [] \<Rightarrow> [] | x # xs \<Rightarrow> if x = c then [(False, xs)] else [])"
| "matchR AnyChar p =
     (case snd p of [] \<Rightarrow> [] | x # xs \<Rightarrow> if isLineTerminator x then [] else [(False, xs)])"
| "matchR BOL p = (if fst p then [p] else [])"
| "matchR EOL p = (if snd p = [] then [p] else [])"
| "matchR (Seq a b) p = concat (map (matchR b) (matchR a p))"
| "matchR (Alt a b) p = matchR a p @ matchR b p"
| "matchR (Star a) p = starClosure (length (snd p)) (matchR a) [p]"
| "matchR (Plus a) p = starClosure (length (snd p)) (matchR a) (matchR a p)"
| "matchR (Opt a) p = p # matchR a p"

text \<open>\<open>test\<close> without flags tries every start index from 0 on.\<close>

fun startPositions :: "bool \<Rightarrow> string \<Rightarrow> pos list" where
  "startPositions b [] = [(b, [])]"
| "startPositions b (x # xs) = (b, x # xs) # startPositions False xs"

definition regexTest :: "regex \<Rightarrow> string \<Rightarrow> bool" where
  "regexTest r s = list_ex (\<lambda>p. matchR r p \<noteq> []) (startPositions True s)"

text \<open>\<open>new RegExp(pattern).test(s)\<close>: the pattern is compiled, then tested.\<close>

definition newRegExpTest :: "string \<Rightarrow> string \<Rightarrow> error + bool" where
  "newRegExpTest pattern s =
     (case compile pattern of Inl e \<Rightarrow> Inl e | Inr r \<Rightarrow> Inr (regexTest r s))"

section \<open>The three pattern literals\<close>

text \<open>
  The pattern literals of lines 181, 185 and 189 of \<open>index.ts\<close>, character by
  character, with the backslash (before each angle bracket of the source) and the
  double quote written as explicit characters. A pattern
  literal is checked when the program is loaded, so \<open>literalTest\<close> has no error result;
  \<open>literals_compile\<close> below shows that the three literals are in the modelled fragment.
\<close>

definition hasScriptTagPattern :: string where
  "hasScriptTagPattern = ''.*'' @ [bslash] @ ''<script.*'' @ [bslash] @ ''>''"

definition isTsPattern :: string where
  "isTsPattern =
     ''.*'' @ [bslash] @ ''<script.*lang='' @ [dquote] @ ''tsx?'' @ [dquote] @ ''.*'' @ [bslash] @ ''>''"

definition isImportOtherTsPattern :: string where
  "isImportOtherTsPattern =
     ''.*'' @ [bslash] @ ''<script.*src='' @ [dquote] @ ''.*'' @ [dquote] @ ''.*'' @ [bslash] @ ''>''"

definition literalTest :: "string \<Rightarrow> string \<Rightarrow> bool" where
  "literalTest pattern s = (case compile pattern of Inl e \<Rightarrow> False | Inr r \<Rightarrow> regexTest r s)"

definition hasScriptTag :: "string \<Rightarrow> bool" where
  "hasScriptTag src = literalTest hasScriptTagPattern src"

definition isTs :: "string \<Rightarrow> bool" where
  "isTs src = literalTest isTsPattern src"

definition isImportOtherTs :: "string \<Rightarrow> bool" where
  "isImportOtherTs src = literalTest isImportOtherTsPattern src"

section \<open>Data of the run\<close>

record document =
  uri :: string
  languageId :: "string option"
  version :: nat
  content :: string

record position =
  line :: nat
  character :: nat

record diagnostic =
  rangeStart :: position
  rangeEnd :: position
  message :: string

datatype excludeDirArg = OneDir string | ManyDirs "string list"

record options =
  workspace :: string
  srcDir :: "string option"
  onlyTemplate :: "bool option"
  onlyTypeScript :: "bool option"
  excludeDir :: "excludeDirArg option"
  failExit :: "bool option"
  files :: "string list option"

record fileRec =
  absFilePath :: string
  fileExt :: "string option"
  src :: string

text \<open>
  The two diagnostic producers, as \<open>getDiagnostics\<close> uses them: \<open>vueMode.doValidation\<close>
  is always there, \<open>scriptMode.doValidation\<close> is an optional member. Either call may throw.
\<close>

record modes =
  vueMode_doValidation :: "document \<Rightarrow> error + diagnostic list"
  scriptMode_doValidation :: "(document \<Rightarrow> error + diagnostic list) option"

text \<open>
  What the run calls and \<open>index.ts\<close> does not define, taken as parameters:
  \<open>path.join\<close> and \<open>path.resolve\<close> of the platform; \<open>globSync\<close>, \<open>readFile\<close> and
  \<open>extractTargetFileExtension\<close> of \<open>./file-util\<close> (a failed read is \<open>Inl\<close>, an absent
  extension is \<open>None\<close>); \<open>createModes\<close>, the construction of the service host, of the two
  modes and of the progress bar from the workspace (lines 109 to 124, \<open>Inl\<close> when one
  of them throws); \<open>lineCount\<close> and the text of one line of a document; \<open>getLines\<close>,
  \<open>formatLine\<close> and \<open>formatCursor\<close> of \<open>./print\<close>. The printing functions, the tick of
  the bar, the creation and the disposal of a cache are events of the trace; they and the
  three formatting functions are taken to return.
\<close>

record env =
  path_join :: "string \<Rightarrow> string \<Rightarrow> string"
  path_resolve :: "string \<Rightarrow> string"
  globSync :: "string \<Rightarrow> string list"
  readFile :: "string \<Rightarrow> error + string"
  extractTargetFileExtension :: "string \<Rightarrow> string option"
  createModes :: "string \<Rightarrow> error + modes"
  lineCount :: "document \<Rightarrow> nat"
  getLineText :: "document \<Rightarrow> nat \<Rightarrow> string"
  getLines :: "nat \<Rightarrow> nat \<Rightarrow> nat \<Rightarrow> nat list"
  formatLine :: "nat \<Rightarrow> string \<Rightarrow> bool \<Rightarrow> string"
  formatCursor :: "position \<Rightarrow> position \<Rightarrow> string"

text \<open>What the run does to the outside, in the order it does it.\<close>

datatype cache = DocumentRegions | ScriptRegionDocuments

datatype producer = VueMode | ScriptMode

datatype event =
    ReadFile string
  | GetLanguageModelCache cache
  | DoValidation producer document
  | PrintError string
  | PrintMessage string
  | PrintLog string
  | BarTick
  | ConsoleError error
  | Dispose cache
  | ProcessExit nat

section \<open>Small library functions\<close>

fun showNat :: "nat \<Rightarrow> string" where
  "showNat n =
     (if n < 10 then [char_of (48 + n)] else showNat (n div 10) @ [char_of (48 + n mod 10)])"

declare showNat.simps [simp del]

text \<open>\<open>Array.prototype.join\<close> on strings.\<close>

fun joinWith :: "string \<Rightarrow> string list \<Rightarrow> string" where
  "joinWith sep [] = []"
| "joinWith sep [x] = x"
| "joinWith sep (x # xs) = x @ sep @ joinWith sep xs"

text \<open>\<open>.replace(/\n$/, "")\<close>: one line feed at the very end is removed.\<close>

definition stripNewline :: "string \<Rightarrow> string" where
  "stripNewline s = (if s \<noteq> [] \<and> last s = CHR 0x0A then butlast s else s)"

definition orDefault :: "'a \<Rightarrow> 'a option \<Rightarrow> 'a" where
  "orDefault d x = (case x of None \<Rightarrow> d | Some v \<Rightarrow> v)"

section \<open>traverse\<close>

text \<open>
  The filter of lines 66 to 68. The pattern is built inside the callback, once per
  candidate, so a malformed pattern throws at the first candidate and not at all when
  there is none.
\<close>

definition exclusionPattern :: "string list \<Rightarrow> string" where
  "exclusionPattern resolved = ''^(?:'' @ joinWith ''|'' resolved @ '').*$''"

fun filterTargets :: "string \<Rightarrow> string list \<Rightarrow> error + string list" where
  "filterTargets pattern [] = Inr []"
| "filterTargets pattern (targetFile # rest) =
     (case newRegExpTest pattern targetFile of
        Inl e \<Rightarrow> Inl e
      | Inr excluded \<Rightarrow>
          (case filterTargets pattern rest of
             Inl e \<Rightarrow> Inl e
           | Inr kept \<Rightarrow> Inr (if excluded then kept else targetFile # kept)))"

text \<open>
  Lines 71 to 80: every read is issued before any is awaited; the first failure in
  list order stands for the rejection of \<open>Promise.all\<close>.
\<close>

fun readAll :: "env \<Rightarrow> string list \<Rightarrow> error + fileRec list" where
  "readAll e [] = Inr []"
| "readAll e (p # ps) =
     (case readFile e p of
        Inl err \<Rightarrow> Inl err
      | Inr s \<Rightarrow>
          (case readAll e ps of
             Inl err \<Rightarrow> Inl err
           | Inr fs \<Rightarrow>
               Inr (\<lparr>absFilePath = p, fileExt = extractTargetFileExtension e p, src = s\<rparr> # fs)))"

text \<open>Lines 83 to 88: the callback of the filter applied when \<open>onlyTypeScript\<close> is set.\<close>

definition eligible :: "fileRec \<Rightarrow> bool" where
  "eligible f =
     (if fileExt f \<noteq> Some ''vue'' \<or> \<not> hasScriptTag (src f) then True
      else isTs (src f) \<or> isImportOtherTs (src f))"

text \<open>Line 92: \<open>TextDocument.create\<close> with the address, the extension, version 0 and the text.\<close>

definition createDocument :: "fileRec \<Rightarrow> document" where
  "createDocument f =
     \<lparr>uri = ''file://'' @ absFilePath f, languageId = fileExt f, version = 0, content = src f\<rparr>"

text \<open>Line 60: the pattern handed to the scan (\<open>strict\<close> is the parameter \<open>onlyTypeScript\<close>).\<close>

definition globPattern :: "string list \<Rightarrow> bool \<Rightarrow> string" where
  "globPattern validLanguages strict =
     (if strict then ''**/*.{'' @ joinWith '','' validLanguages @ ''}'' else ''**/*.vue'')"

text \<open>
  Lines 57 to 69: the explicit list if it is not empty, else the scan; then, if
  \<open>excludeDirs\<close> is given (an empty list counts as given), the exclusion filter.
\<close>

definition selectTargets ::
  "env \<Rightarrow> string list \<Rightarrow> string \<Rightarrow> bool \<Rightarrow> string list \<Rightarrow> string list option
     \<Rightarrow> error + string list" where
  "selectTargets e validLanguages root strict changedFiles excludeDirs =
     (let targetFiles =
            (if changedFiles \<noteq> [] then changedFiles
             else globSync e (path_join e root (globPattern validLanguages strict)))
      in case excludeDirs of
           None \<Rightarrow> Inr targetFiles
         | Some dirs \<Rightarrow> filterTargets (exclusionPattern (map (path_resolve e) dirs)) targetFiles)"

text \<open>
  \<open>traverse\<close>: selection, the reads of all selected files, the eligibility filter in
  strict-only mode, the documents. An exception of the selection or of a read ends it.
\<close>

definition traverse ::
  "env \<Rightarrow> string list \<Rightarrow> string \<Rightarrow> bool \<Rightarrow> string list \<Rightarrow> string list option
     \<Rightarrow> event list \<times> (error + document list)" where
  "traverse e validLanguages root strict changedFiles excludeDirs =
     (case selectTargets e validLanguages root strict changedFiles excludeDirs of
        Inl err \<Rightarrow> ([], Inl err)
      | Inr targetFiles \<Rightarrow>
          (case readAll e targetFiles of
             Inl err \<Rightarrow> (map ReadFile targetFiles, Inl err)
           | Inr fs \<Rightarrow>
               (map ReadFile targetFiles,
                Inr (map createDocument (if strict then filter eligible fs else fs)))))"

section \<open>getDiagnostics\<close>

text \<open>
  The argument of \<open>getDiagnostics\<close> (interface \<open>Source\<close>); three of its fields carry a
  prefix because \<open>options\<close> has fields of the same names.
\<close>

record source =
  docs :: "document list"
  src_workspace :: string
  src_onlyTemplate :: bool
  src_failExit :: bool

record accum =
  hasError :: bool
  totalErrors :: nat
  trace :: "event list"

record run = accum +
  exitCode :: nat

definition emit :: "event list \<Rightarrow> 'a accum_scheme \<Rightarrow> 'a accum_scheme" where
  "emit evs a = a\<lparr>trace := trace a @ evs\<rparr>"

text \<open>Lines 146 to 158: the context lines of one diagnostic.\<close>

definition printLine :: "env \<Rightarrow> document \<Rightarrow> diagnostic \<Rightarrow> nat \<Rightarrow> event list" where
  "printLine e doc result ln =
     (let code = stripNewline (getLineText e doc ln);
          isError = (ln = line (rangeStart result))
      in PrintLog (formatLine e ln code isError) #
         (if isError then [PrintLog (formatCursor e (rangeStart result) (rangeEnd result))] else []))"

text \<open>Lines 136 to 158: the report of one diagnostic.\<close>

definition printResult :: "env \<Rightarrow> document \<Rightarrow> diagnostic \<Rightarrow> event list" where
  "printResult e doc result =
     (let total = lineCount e doc;
          lines = getLines e (line (rangeStart result)) (line (rangeEnd result)) total
      in [PrintError (''Error in '' @ uri doc),
          PrintMessage (showNat (line (rangeStart result)) @ '':'' @
                        showNat (character (rangeStart result)) @ '' '' @ message result)]
         @ concat (map (printLine e doc result) lines))"

text \<open>
  Lines 126 to 131: the two producers on one document. The events are the calls made;
  \<open>Inl\<close> is the exception of the call that threw.
\<close>

definition validateDoc :: "modes \<Rightarrow> bool \<Rightarrow> document \<Rightarrow> event list \<times> (error + diagnostic list)" where
  "validateDoc m onlyTpl doc =
     (case vueMode_doValidation m doc of
        Inl err \<Rightarrow> ([DoValidation VueMode doc], Inl err)
      | Inr vueTplResults \<Rightarrow>
          (case (if onlyTpl then None else scriptMode_doValidation m) of
             None \<Rightarrow> ([DoValidation VueMode doc], Inr (vueTplResults @ []))
           | Some validate \<Rightarrow>
               (case validate doc of
                  Inl err \<Rightarrow> ([DoValidation VueMode doc, DoValidation ScriptMode doc], Inl err)
                | Inr scriptResults \<Rightarrow>
                    ([DoValidation VueMode doc, DoValidation ScriptMode doc],
                     Inr (vueTplResults @ scriptResults)))))"

definition stopNotice :: string where
  "stopNotice = ''Please run command locally to see the full list''"

text \<open>Lines 132 to 161: the results of one document are counted and printed, the bar ticks.\<close>

definition handleResults :: "env \<Rightarrow> document \<Rightarrow> diagnostic list \<Rightarrow> accum \<Rightarrow> accum" where
  "handleResults e doc results a =
     emit [BarTick]
       (if results \<noteq> []
        then emit (concat (map (printResult e doc) results))
               (a\<lparr>hasError := True, totalErrors := totalErrors a + length results\<rparr>)
        else a)"

text \<open>
  Lines 125 to 166: the loop over the documents. The first component of the result is
  the exception that left the loop, if one did.
\<close>

fun validationLoop ::
  "env \<Rightarrow> modes \<Rightarrow> bool \<Rightarrow> bool \<Rightarrow> document list \<Rightarrow> accum \<Rightarrow> error option \<times> accum" where
  "validationLoop e m onlyTpl failEx [] a = (None, a)"
| "validationLoop e m onlyTpl failEx (doc # rest) a =
     (case validateDoc m onlyTpl doc of
        (evs, Inl err) \<Rightarrow> (Some err, emit evs a)
      | (evs, Inr results) \<Rightarrow>
          (let a3 = handleResults e doc results (emit evs a)
           in if hasError a3 \<and> failEx then (None, emit [PrintMessage stopNotice] a3)
              else validationLoop e m onlyTpl failEx rest a3))"

definition summaryLine :: "nat \<Rightarrow> nat \<Rightarrow> string" where
  "summaryLine errors n = ''Found: '' @ showNat errors @ '' errors in '' @ showNat n @ '' file(s)''"

text \<open>Lines 108 to 169: the guarded block with its handler.\<close>

definition guarded :: "env \<Rightarrow> source \<Rightarrow> accum \<Rightarrow> accum" where
  "guarded e s a =
     (case createModes e (src_workspace s) of
        Inl err \<Rightarrow> emit [ConsoleError err] (a\<lparr>hasError := True\<rparr>)
      | Inr m \<Rightarrow>
          (case validationLoop e m (src_onlyTemplate s) (src_failExit s) (docs s) a of
             (Some err, a') \<Rightarrow> emit [ConsoleError err] (a'\<lparr>hasError := True\<rparr>)
           | (None, a') \<Rightarrow> a'))"

text \<open>Lines 170 to 177: the \<open>finally\<close> block, up to the exit.\<close>

definition finallyBlock :: "source \<Rightarrow> accum \<Rightarrow> run" where
  "finallyBlock s a =
     (let a1 = emit [Dispose DocumentRegions, Dispose ScriptRegionDocuments] a;
          a2 = (if \<not> src_failExit s
                then emit [PrintMessage (summaryLine (totalErrors a1) (length (docs s)))] a1
                else a1);
          code = (if hasError a2 then 1 else 0)
      in accum.extend (emit [ProcessExit code] a2) \<lparr>exitCode = code\<rparr>)"

definition getDiagnostics :: "env \<Rightarrow> source \<Rightarrow> run" where
  "getDiagnostics e s =
     finallyBlock s (guarded e s
       \<lparr>hasError = False, totalErrors = 0,
        trace = [GetLanguageModelCache DocumentRegions, GetLanguageModelCache ScriptRegionDocuments]\<rparr>)"

section \<open>check\<close>

text \<open>
  \<open>validLanguages\<close> is a variable of the module: \<open>check\<close> receives its current value.
  The result is the trace of the whole call and either the exception that left it or
  the run that ended in \<open>process.exit\<close>.
\<close>

definition excludeDirsOf :: "excludeDirArg option \<Rightarrow> string list option" where
  "excludeDirsOf x =
     (case x of None \<Rightarrow> None | Some (OneDir d) \<Rightarrow> Some [d] | Some (ManyDirs ds) \<Rightarrow> Some ds)"

definition srcDirOf :: "options \<Rightarrow> string" where
  "srcDirOf opts = (case srcDir opts of None \<Rightarrow> workspace opts
                    | Some d \<Rightarrow> if d = [] then workspace opts else d)"

definition check :: "env \<Rightarrow> string list \<Rightarrow> options \<Rightarrow> event list \<times> (error + run)" where
  "check e validLanguages0 opts =
     (let strict = orDefault False (onlyTypeScript opts);
          validLanguages = (if strict then [''ts'', ''tsx'', ''vue''] else validLanguages0);
          excludeDirs = excludeDirsOf (excludeDir opts)
      in case traverse e validLanguages (srcDirOf opts) strict (orDefault [] (files opts)) excludeDirs of
           (evs, Inl err) \<Rightarrow> (evs, Inl err)
         | (evs, Inr ds) \<Rightarrow>
             (let r = getDiagnostics e
                        \<lparr>docs = ds, src_workspace = workspace opts,
                         src_onlyTemplate = orDefault False (onlyTemplate opts),
                         src_failExit = orDefault False (failExit opts)\<rparr>
              in (evs @ trace r, Inr r)))"

section \<open>Vocabulary of the properties\<close>

text \<open>
  The events the loop of \<open>getDiagnostics\<close> can emit: calls of the producers, the report
  of a diagnostic, the tick of the bar and the stop notice. No message printed by the
  loop starts like the summary line.
\<close>

fun isLoopEvent :: "event \<Rightarrow> bool" where
  "isLoopEvent (DoValidation p d) = True"
| "isLoopEvent (PrintError s) = True"
| "isLoopEvent (PrintMessage s) = (\<not> prefix ''Found: '' s)"
| "isLoopEvent (PrintLog s) = True"
| "isLoopEvent BarTick = True"
| "isLoopEvent ev = False"

fun isBodyEvent :: "event \<Rightarrow> bool" where
  "isBodyEvent (ConsoleError err) = True"
| "isBodyEvent ev = isLoopEvent ev"

fun isSummaryLine :: "event \<Rightarrow> bool" where
  "isSummaryLine (PrintMessage s) = prefix ''Found: '' s"
| "isSummaryLine ev = False"

fun isExit :: "event \<Rightarrow> bool" where
  "isExit (ProcessExit n) = True"
| "isExit ev = False"

text \<open>The header of the report of one diagnostic, and the log of a caught exception.\<close>

fun isPrintError :: "event \<Rightarrow> bool" where
  "isPrintError (PrintError s) = True"
| "isPrintError ev = False"

fun isConsoleError :: "event \<Rightarrow> bool" where
  "isConsoleError (ConsoleError err) = True"
| "isConsoleError ev = False"

text \<open>A document is clean when both producers return and report nothing.\<close>

definition clean :: "modes \<Rightarrow> bool \<Rightarrow> document \<Rightarrow> bool" where
  "clean m onlyTpl d = (snd (validateDoc m onlyTpl d) = Inr [])"

text \<open>
  A document is passed when the loop goes on after it: the producers return, and under
  \<open>failExit\<close> they report nothing.
\<close>

definition passed :: "modes \<Rightarrow> bool \<Rightarrow> bool \<Rightarrow> document \<Rightarrow> bool" where
  "passed m onlyTpl failEx d =
     (case snd (validateDoc m onlyTpl d) of Inl err \<Rightarrow> False | Inr rs \<Rightarrow> \<not> failEx \<or> rs = [])"

text \<open>Everything the loop emits for one document that it passes.\<close>

definition docEvents :: "env \<Rightarrow> modes \<Rightarrow> bool \<Rightarrow> document \<Rightarrow> event list" where
  "docEvents e m onlyTpl d =
     fst (validateDoc m onlyTpl d) @
     (case snd (validateDoc m onlyTpl d) of
        Inl err \<Rightarrow> []
      | Inr rs \<Rightarrow> concat (map (printResult e d) rs) @ [BarTick])"

definition acquired :: "event list" where
  "acquired = [GetLanguageModelCache DocumentRegions, GetLanguageModelCache ScriptRegionDocuments]"

definition released :: "event list" where
  "released = [Dispose DocumentRegions, Dispose ScriptRegionDocuments]"

definition initial :: accum where
  "initial = \<lparr>hasError = False, totalErrors = 0, trace = acquired\<rparr>"

definition summaryEvents :: "source \<Rightarrow> nat \<Rightarrow> event list" where
  "summaryEvents s n =
     (if src_failExit s then [] else [PrintMessage (summaryLine n (length (docs s)))])"

text \<open>
  The diagnostics of one document in the words of the specification: the script
  diagnostics are those of the second producer, unless \<open>templateOnly\<close> is set or the
  producer has no validation capability; the reported list is the template diagnostics
  followed by the script diagnostics.
\<close>

definition specScriptDiagnostics :: "modes \<Rightarrow> bool \<Rightarrow> document \<Rightarrow> error + diagnostic list" where
  "specScriptDiagnostics m templateOnly d =
     (if templateOnly then Inr []
      else case scriptMode_doValidation m of None \<Rightarrow> Inr [] | Some validate \<Rightarrow> validate d)"

definition specDiagnostics :: "modes \<Rightarrow> bool \<Rightarrow> document \<Rightarrow> error + diagnostic list" where
  "specDiagnostics m templateOnly d =
     (case vueMode_doValidation m d of
        Inl err \<Rightarrow> Inl err
      | Inr tpl \<Rightarrow>
          (case specScriptDiagnostics m templateOnly d of
             Inl err \<Rightarrow> Inl err
           | Inr scr \<Rightarrow> Inr (tpl @ scr)))"

text \<open>The document that \<open>traverse\<close> creates for a path that can be read.\<close>

definition loadedDocument :: "env \<Rightarrow> string \<Rightarrow> document" where
  "loadedDocument e p =
     \<lparr>uri = ''file://'' @ p, languageId = extractTargetFileExtension e p, version = 0,
      content = projr (readFile e p)\<rparr>"

definition readable :: "env \<Rightarrow> string \<Rightarrow> bool" where
  "readable e p = (case readFile e p of Inl err \<Rightarrow> False | Inr s \<Rightarrow> True)"

text \<open>
  Lines 82 to 95 and line 48: the documents made from the files read, and the argument
  that \<open>check\<close> hands to \<open>getDiagnostics\<close>.
\<close>

definition documentsOf :: "options \<Rightarrow> fileRec list \<Rightarrow> document list" where
  "documentsOf opts fs =
     map createDocument (if orDefault False (onlyTypeScript opts) then filter eligible fs else fs)"

definition sourceOf :: "options \<Rightarrow> document list \<Rightarrow> source" where
  "sourceOf opts ds =
     \<lparr>docs = ds, src_workspace = workspace opts,
      src_onlyTemplate = orDefault False (onlyTemplate opts),
      src_failExit = orDefault False (failExit opts)\<rparr>"

text \<open>Lines 40 to 46 of \<open>check\<close>: the files that \<open>traverse\<close> selects for the given options.\<close>

definition targetsOf :: "env \<Rightarrow> string list \<Rightarrow> options \<Rightarrow> error + string list" where
  "targetsOf e validLanguages0 opts =
     (let strict = orDefault False (onlyTypeScript opts)
      in selectTargets e (if strict then [''ts'', ''tsx'', ''vue''] else validLanguages0)
           (srcDirOf opts) strict (orDefault [] (files opts)) (excludeDirsOf (excludeDir opts)))"

section \<open>A concrete environment for the examples\<close>

text \<open>
  \<open>path.resolve\<close> with one argument on a POSIX platform: a relative path is put under
  the working directory, empty and \<open>.\<close> segments are dropped, \<open>..\<close> removes the segment
  before it, and the result has no trailing separator.
\<close>

fun splitOn :: "char \<Rightarrow> string \<Rightarrow> string list" where
  "splitOn c [] = [] # []"
| "splitOn c (x # xs) =
     (if x = c then [] # splitOn c xs
      else (case splitOn c xs of [] \<Rightarrow> [x] # [] | y # ys \<Rightarrow> (x # y) # ys))"

fun normalizeSegments :: "string list \<Rightarrow> string list \<Rightarrow> string list" where
  "normalizeSegments acc [] = rev acc"
| "normalizeSegments acc (seg # segs) =
     (if seg = [] \<or> seg = ''.'' then normalizeSegments acc segs
      else if seg = ''..'' then normalizeSegments (tl acc) segs
      else normalizeSegments (seg # acc) segs)"

definition posixResolve :: "string \<Rightarrow> string \<Rightarrow> string" where
  "posixResolve cwd p =
     (let full = (case p of [] \<Rightarrow> cwd | c # cs \<Rightarrow> if c = CHR ''/'' then p else cwd @ ''/'' @ p)
      in ''/'' @ joinWith ''/'' (normalizeSegments [] (splitOn CHR ''/'' full)))"

definition extensionOf :: "string \<Rightarrow> string option" where
  "extensionOf p =
     (if CHR ''.'' \<in> set p then Some (rev (takeWhile (\<lambda>c. c \<noteq> CHR ''.'') (rev p))) else None)"

definition exampleDiagnostic :: diagnostic where
  "exampleDiagnostic =
     \<lparr>rangeStart = \<lparr>line = 0, character = 3\<rparr>, rangeEnd = \<lparr>line = 0, character = 6\<rparr>,
      message = ''Property msg does not exist''\<rparr>"

text \<open>
  Producers for the examples: the template producer reports one diagnostic on a
  document whose text is \<open>{{ msg }}\<close> and throws on one whose text is \<open>crash\<close>; the script
  producer reports nothing.
\<close>

definition exampleModes :: modes where
  "exampleModes =
     \<lparr>vueMode_doValidation =
        (\<lambda>d. if content d = ''{{ msg }}'' then Inr [exampleDiagnostic]
              else if content d = ''crash'' then Inl (Thrown ''template'')
              else Inr []),
      scriptMode_doValidation = Some (\<lambda>d. Inr [])\<rparr>"

text \<open>
  The file system is an association list from paths to texts; the scan returns all of
  its paths, and a path that is not in it cannot be read. The working directory is \<open>/w\<close>.
\<close>

definition exampleEnv :: "(string \<times> string) list \<Rightarrow> env" where
  "exampleEnv fs =
     \<lparr>path_join = (\<lambda>a b. a @ ''/'' @ b),
      path_resolve = posixResolve ''/w'',
      globSync = (\<lambda>pat. map fst fs),
      readFile = (\<lambda>p. case map_of fs p of None \<Rightarrow> Inl (FileReadError p) | Some s \<Rightarrow> Inr s),
      extractTargetFileExtension = extensionOf,
      createModes = (\<lambda>w. Inr exampleModes),
      lineCount = (\<lambda>d. 1),
      getLineText = (\<lambda>d n. content d),
      getLines = (\<lambda>first lst total. [first]),
      formatLine = (\<lambda>n code isError. showNat n @ '' | '' @ code),
      formatCursor = (\<lambda>p q. replicate (character p) CHR '' '' @ replicate (character q - character p) CHR ''^'')\<rparr>"

definition exampleOptions :: options where
  "exampleOptions =
     \<lparr>workspace = ''/w'', srcDir = None, onlyTemplate = None, onlyTypeScript = None,
      excludeDir = None, failExit = None, files = None\<rparr>"

definition exampleSource :: "document list \<Rightarrow> bool \<Rightarrow> source" where
  "exampleSource ds failEx =
     \<lparr>docs = ds, src_workspace = ''/w'', src_onlyTemplate = False, src_failExit = failEx\<rparr>"

definition exampleDoc :: "string \<Rightarrow> string \<Rightarrow> document" where
  "exampleDoc p s = \<lparr>uri = ''file://'' @ p, languageId = Some ''vue'', version = 0, content = s\<rparr>"

text \<open>Two files, the first with an unresolved template expression.\<close>

definition twoFiles :: "(string \<times> string) list" where
  "twoFiles = [(''/w/a.vue'', ''{{ msg }}''), (''/w/b.vue'', ''ok'')]"

text \<open>An environment in which the construction of the producers throws.\<close>

definition throwingEnv :: env where
  "throwingEnv = (exampleEnv [])\<lparr>createModes := (\<lambda>w. Inl (Thrown ''no project''))\<rparr>"

text \<open>One file under \<open>/w/src\<close>.\<close>

definition srcFile :: "(string \<times> string) list" where
  "srcFile = [(''/w/src/a.vue'', ''ok'')]"

text \<open>
  Files for the strict-only mode: a script file, a component without script section, with
  a \<open>ts\<close> script, with a \<open>tsx\<close> script, with an external script, and with a plain inline
  script.
\<close>

definition strictFiles :: "(string \<times> string) list" where
  "strictFiles =
     [(''/w/a.ts'', ''let x = 1''),
      (''/w/b.vue'', ''<template><p>hi</p></template>''),
      (''/w/c.vue'', ''<script lang='' @ [dquote] @ ''ts'' @ [dquote] @ ''>let x = 1</script>''),
      (''/w/d.vue'', ''<script lang='' @ [dquote] @ ''tsx'' @ [dquote] @ ''>let x = 1</script>''),
      (''/w/e.vue'', ''<script src='' @ [dquote] @ ''./e.ts'' @ [dquote] @ ''></script>''),
      (''/w/f.vue'', ''<script>export default {}</script>'')]"

text \<open>
  One readable file without findings, in a workspace for which the construction of the
  producers throws.
\<close>

definition brokenProjectEnv :: env where
  "brokenProjectEnv = (exampleEnv srcFile)\<lparr>createModes := (\<lambda>w. Inl (Thrown ''no project''))\<rparr>"

section \<open>Vocabulary for the patterns\<close>

text \<open>
  The meaning of a regular expression, independent of the matcher: \<open>sem r p q\<close> holds
  when a match of \<open>r\<close> that starts at position \<open>p\<close> can end at position \<open>q\<close>. The matcher
  \<open>matchR\<close> is shown below to compute exactly this relation.
\<close>

primrec sem :: "regex \<Rightarrow> pos \<Rightarrow> pos \<Rightarrow> bool" where
  "sem Empty p q = (q = p)"
| "sem (Chr c) p q = (snd p = c # snd q \<and> \<not> fst q)"
| "sem AnyChar p q = (\<exists>x. snd p = x # snd q \<and> \<not> isLineTerminator x \<and> \<not> fst q)"
| "sem BOL p q = (fst p \<and> q = p)"
| "sem EOL p q = (snd p = [] \<and> q = p)"
| "sem (Seq a b) p q = (\<exists>m. sem a p m \<and> sem b m q)"
| "sem (Alt a b) p q = (sem a p q \<or> sem b p q)"
| "sem (Star a) p q = (sem a)\<^sup>*\<^sup>* p q"
| "sem (Plus a) p q = (\<exists>m. sem a p m \<and> (sem a)\<^sup>*\<^sup>* m q)"
| "sem (Opt a) p q = (q = p \<or> sem a p q)"

text \<open>Reading never goes back, and the flag records whether something has been read.\<close>

definition advances :: "pos \<Rightarrow> pos \<Rightarrow> bool" where
  "advances p q = (\<exists>t. snd p = t @ snd q \<and> fst q = (fst p \<and> t = []))"

definition noLineBreak :: "string \<Rightarrow> bool" where
  "noLineBreak t = list_all (\<lambda>c. \<not> isLineTerminator c) t"

text \<open>A sequence of expressions accepts an input when it matches one of its prefixes.\<close>

definition accepts :: "regex list \<Rightarrow> bool \<Rightarrow> string \<Rightarrow> bool" where
  "accepts rs b u = (\<exists>q. sem (mkSeq rs) (b, u) q)"

text \<open>
  The three pattern literals as sequences, and what they say about a text: somewhere,
  \<open><script\<close> is followed on the same line by \<open>>\<close>; by \<open>lang="ts"\<close> or \<open>lang="tsx"\<close> and then
  \<open>>\<close>; by \<open>src="\<close>, a closing quote and then \<open>>\<close>.
\<close>

definition scriptRegex :: "regex list" where
  "scriptRegex = Star AnyChar # map Chr ''<script'' @ Star AnyChar # map Chr ''>'' @ []"

definition tailRegex :: "regex list" where
  "tailRegex = map Chr [dquote] @ Star AnyChar # map Chr ''>'' @ []"

definition tsRegex :: "regex list" where
  "tsRegex = Star AnyChar # map Chr ''<script'' @ Star AnyChar # map Chr (''lang='' @ [dquote] @ ''ts'')
       @ Opt (Chr CHR ''x'') # tailRegex"

definition srcRegex :: "regex list" where
  "srcRegex = Star AnyChar # map Chr ''<script'' @ Star AnyChar # map Chr (''src='' @ [dquote])
       @ Star AnyChar # tailRegex"

definition scriptMarker :: "string \<Rightarrow> bool" where
  "scriptMarker s = (\<exists>a b c. s = a @ ''<script'' @ b @ ''>'' @ c \<and> noLineBreak b)"

definition strictLang :: "string \<Rightarrow> bool" where
  "strictLang s =
     (\<exists>a b x c d. s = a @ ''<script'' @ b @ (''lang='' @ [dquote] @ ''ts'') @ x @ [dquote] @ c @ ''>'' @ d \<and>
        (x = [] \<or> x = ''x'') \<and> noLineBreak b \<and> noLineBreak c)"

definition externalSrc :: "string \<Rightarrow> bool" where
  "externalSrc s =
     (\<exists>a b u c d. s = a @ ''<script'' @ b @ (''src='' @ [dquote]) @ u @ [dquote] @ c @ ''>'' @ d \<and>
        noLineBreak b \<and> noLineBreak u \<and> noLineBreak c)"

text \<open>
  An exclusion entry is plain when none of its characters has a meaning in a pattern.
  \<open>excludedBy\<close> is the test the exclusion pattern performs for plain entries: the
  candidate begins with one of the entries and has no line break after it. Without
  entries the pattern has one empty alternative.
\<close>

definition plain :: "string \<Rightarrow> bool" where
  "plain r = list_all (\<lambda>c. c \<notin> set ''^$.*+?()[]{}|'' \<and> c \<noteq> bslash) r"

definition alternativesOf :: "string list \<Rightarrow> string list" where
  "alternativesOf rs = (if rs = [] then [] # [] else rs)"

definition excludedBy :: "string list \<Rightarrow> string \<Rightarrow> bool" where
  "excludedBy rs t =
     list_ex (\<lambda>r. prefix r t \<and> noLineBreak (drop (length r) t)) (alternativesOf rs)"

definition lits :: "string \<Rightarrow> token list" where
  "lits r = map (\<lambda>c. TAtom (Chr c)) r"

definition lit :: "string \<Rightarrow> regex" where
  "lit r = mkSeq (map Chr r)"

fun altTokens :: "string list \<Rightarrow> token list" where
  "altTokens [] = []"
| "altTokens [r] = lits r"
| "altTokens (r # rs) = lits r @ TBar # altTokens rs"

section \<open>Lemmas about the loop\<close>

lemma emit_simps [simp]:
  "trace (emit evs a) = trace a @ evs"
  "hasError (emit evs a) = hasError a"
  "totalErrors (emit evs a) = totalErrors a"
  by (simp_all add: emit_def)

lemma showNat_head: "\<exists>c cs. showNat n = c # cs \<and> of_char c < (58 :: nat)"
proof (induction n rule: showNat.induct)
  case (1 n)
  show ?case
  proof (cases "n < 10")
    case True
    then have "showNat n = [char_of (48 + n)]" by (simp add: showNat.simps)
    moreover have "of_char (char_of (48 + n) :: char) < (58 :: nat)" using True by simp
    ultimately show ?thesis by blast
  next
    case False
    with 1 obtain c cs where "showNat (n div 10) = c # cs" "of_char c < (58 :: nat)" by auto
    with False have "showNat n = c # (cs @ [char_of (48 + n mod 10)])"
      by (subst showNat.simps) simp
    with \<open>of_char c < (58 :: nat)\<close> show ?thesis by blast
  qed
qed

lemma showNat_not_summary: "\<not> prefix ''Found: '' (showNat n @ rest)"
proof -
  obtain c cs where s: "showNat n = c # cs" and a: "of_char c < (58 :: nat)"
    using showNat_head by blast
  have "of_char CHR ''F'' = (70 :: nat)" by simp
  with a have "c \<noteq> CHR ''F''" by auto
  with s show ?thesis by simp
qed

lemma validateDoc_events:
  "validateDoc m ot d = (evs, r) \<Longrightarrow> list_all isLoopEvent evs"
  by (auto simp: validateDoc_def split: sum.splits option.splits if_splits)

lemma printResult_events: "list_all isLoopEvent (printResult e d r)"
  by (simp add: printResult_def printLine_def Let_def list_all_iff showNat_not_summary)

lemma printResults_events: "list_all isLoopEvent (concat (map (printResult e d) rs))"
  by (induction rs) (simp_all add: printResult_events)

lemma stopNotice_event: "isLoopEvent (PrintMessage stopNotice)"
  by (simp add: stopNotice_def)

lemma handleResults_trace:
  "trace (handleResults e d rs a) = trace a @ concat (map (printResult e d) rs) @ [BarTick]"
  by (simp add: handleResults_def)

lemma handleResults_hasError:
  "hasError (handleResults e d rs a) = (hasError a \<or> rs \<noteq> [])"
  by (simp add: handleResults_def)

lemma handleResults_totalErrors:
  "totalErrors (handleResults e d rs a) = totalErrors a + length rs"
  by (simp add: handleResults_def)

lemma loop_step_throw:
  "validateDoc m ot d = (evs, Inl err) \<Longrightarrow>
     validationLoop e m ot fe (d # ds) a = (Some err, emit evs a)"
  by simp

lemma loop_step_stop:
  "validateDoc m ot d = (evs, Inr rs) \<Longrightarrow> (hasError a \<or> rs \<noteq> []) \<Longrightarrow> fe \<Longrightarrow>
     validationLoop e m ot fe (d # ds) a =
       (None, emit [PrintMessage stopNotice] (handleResults e d rs (emit evs a)))"
  by (simp add: Let_def handleResults_hasError)

lemma loop_step_go:
  "validateDoc m ot d = (evs, Inr rs) \<Longrightarrow> \<not> ((hasError a \<or> rs \<noteq> []) \<and> fe) \<Longrightarrow>
     validationLoop e m ot fe (d # ds) a =
       validationLoop e m ot fe ds (handleResults e d rs (emit evs a))"
  by (auto simp add: Let_def handleResults_hasError)

lemma loop_trace:
  "validationLoop e m ot fe ds a = (x, a') \<Longrightarrow>
     \<exists>evs. trace a' = trace a @ evs \<and> list_all isLoopEvent evs"
proof (induction ds arbitrary: a x a')
  case Nil
  then show ?case by simp
next
  case (Cons d ds)
  obtain evs r where v: "validateDoc m ot d = (evs, r)" by (cases "validateDoc m ot d")
  have le: "list_all isLoopEvent evs" using validateDoc_events [OF v] .
  show ?case
  proof (cases r)
    case (Inl err)
    with Cons.prems v le show ?thesis by auto
  next
    case (Inr rs)
    let ?a3 = "handleResults e d rs (emit evs a)"
    let ?evs3 = "evs @ concat (map (printResult e d) rs) @ [BarTick]"
    have t3: "trace ?a3 = trace a @ ?evs3"
      by (simp add: handleResults_trace)
    have l3: "list_all isLoopEvent ?evs3"
      using le printResults_events [of e d rs] by simp
    show ?thesis
    proof (cases "(hasError a \<or> rs \<noteq> []) \<and> fe")
      case True
      with Cons.prems v Inr have "a' = emit [PrintMessage stopNotice] ?a3"
        using loop_step_stop [of m ot d evs rs a fe e ds] by auto
      then have "trace a' = trace a @ (?evs3 @ [PrintMessage stopNotice])"
        using t3 by simp
      moreover have "list_all isLoopEvent (?evs3 @ [PrintMessage stopNotice])"
        using l3 stopNotice_event by simp
      ultimately show ?thesis by blast
    next
      case False
      with Cons.prems v Inr have "validationLoop e m ot fe ds ?a3 = (x, a')"
        using loop_step_go [of m ot d evs rs a fe e ds] by auto
      from Cons.IH [OF this] obtain evs' where
        "trace a' = trace ?a3 @ evs'" "list_all isLoopEvent evs'" by blast
      then have "trace a' = trace a @ (?evs3 @ evs')"
        and "list_all isLoopEvent (?evs3 @ evs')"
        using t3 l3 by simp_all
      then show ?thesis by blast
    qed
  qed
qed

lemma loop_hasError_mono:
  "validationLoop e m ot fe ds a = (x, a') \<Longrightarrow> hasError a \<Longrightarrow> hasError a'"
proof (induction ds arbitrary: a x a')
  case Nil
  then show ?case by simp
next
  case (Cons d ds)
  obtain evs r where v: "validateDoc m ot d = (evs, r)" by (cases "validateDoc m ot d")
  show ?case
  proof (cases r)
    case (Inl err)
    with Cons.prems v show ?thesis by auto
  next
    case (Inr rs)
    let ?a3 = "handleResults e d rs (emit evs a)"
    have h3: "hasError ?a3" using Cons.prems(2) by (simp add: handleResults_hasError)
    show ?thesis
    proof (cases fe)
      case True
      with Cons.prems v Inr have "a' = emit [PrintMessage stopNotice] ?a3"
        using loop_step_stop [of m ot d evs rs a fe e ds] by auto
      with h3 show ?thesis by simp
    next
      case False
      with Cons.prems v Inr have "validationLoop e m ot fe ds ?a3 = (x, a')"
        using loop_step_go [of m ot d evs rs a fe e ds] by auto
      from Cons.IH [OF this h3] show ?thesis .
    qed
  qed
qed

lemma loop_counts:
  "validationLoop e m ot fe ds a = (x, a') \<Longrightarrow> (hasError a \<longleftrightarrow> 0 < totalErrors a) \<Longrightarrow>
     (hasError a' \<longleftrightarrow> 0 < totalErrors a')"
proof (induction ds arbitrary: a x a')
  case Nil
  then show ?case by simp
next
  case (Cons d ds)
  obtain evs r where v: "validateDoc m ot d = (evs, r)" by (cases "validateDoc m ot d")
  show ?case
  proof (cases r)
    case (Inl err)
    with Cons.prems v show ?thesis by auto
  next
    case (Inr rs)
    let ?a3 = "handleResults e d rs (emit evs a)"
    have h3: "hasError ?a3 \<longleftrightarrow> 0 < totalErrors ?a3" using Cons.prems(2)
      by (auto simp add: handleResults_hasError handleResults_totalErrors)
    show ?thesis
    proof (cases "(hasError a \<or> rs \<noteq> []) \<and> fe")
      case True
      with Cons.prems v Inr have "a' = emit [PrintMessage stopNotice] ?a3"
        using loop_step_stop [of m ot d evs rs a fe e ds] by auto
      with h3 show ?thesis by simp
    next
      case False
      with Cons.prems v Inr have "validationLoop e m ot fe ds ?a3 = (x, a')"
        using loop_step_go [of m ot d evs rs a fe e ds] by auto
      from Cons.IH [OF this h3] show ?thesis .
    qed
  qed
qed

lemma loop_clean_iff:
  "validationLoop e m ot fe ds a = (x, a') \<Longrightarrow> \<not> hasError a \<Longrightarrow>
     (x = None \<and> \<not> hasError a') \<longleftrightarrow> list_all (clean m ot) ds"
proof (induction ds arbitrary: a x a')
  case Nil
  then show ?case by auto
next
  case (Cons d ds)
  obtain evs r where v: "validateDoc m ot d = (evs, r)" by (cases "validateDoc m ot d")
  show ?case
  proof (cases r)
    case (Inl err)
    with Cons.prems v show ?thesis by (auto simp: clean_def)
  next
    case (Inr rs)
    let ?a3 = "handleResults e d rs (emit evs a)"
    have c: "clean m ot d \<longleftrightarrow> rs = []" using v Inr by (simp add: clean_def)
    have h3: "hasError ?a3 \<longleftrightarrow> rs \<noteq> []" using Cons.prems(2)
      by (simp add: handleResults_hasError)
    show ?thesis
    proof (cases "rs = []")
      case True
      with Cons.prems v Inr have "validationLoop e m ot fe ds ?a3 = (x, a')"
        using loop_step_go [of m ot d evs rs a fe e ds] by auto
      from Cons.IH [OF this] h3 True c show ?thesis by simp
    next
      case False
      show ?thesis
      proof (cases fe)
        case True
        with Cons.prems v Inr False have "a' = emit [PrintMessage stopNotice] ?a3"
          using loop_step_stop [of m ot d evs rs a fe e ds] by auto
        with h3 False c show ?thesis by simp
      next
        case nf: False
        with Cons.prems v Inr have "validationLoop e m ot fe ds ?a3 = (x, a')"
          using loop_step_go [of m ot d evs rs a fe e ds] by auto
        from loop_hasError_mono [OF this] h3 False have "hasError a'" by simp
        with c False show ?thesis by simp
      qed
    qed
  qed
qed

text \<open>The loop goes through a prefix of passed documents and emits their events.\<close>

lemma loop_passed_prefix:
  "list_all (passed m ot fe) pre \<Longrightarrow> fe \<longrightarrow> \<not> hasError a \<Longrightarrow>
     \<exists>a1. validationLoop e m ot fe (pre @ rest) a = validationLoop e m ot fe rest a1 \<and>
          trace a1 = trace a @ concat (map (docEvents e m ot) pre) \<and>
          (fe \<longrightarrow> \<not> hasError a1) \<and> (hasError a \<longrightarrow> hasError a1) \<and>
          totalErrors a \<le> totalErrors a1"
proof (induction pre arbitrary: a)
  case Nil
  then show ?case by (intro exI [of _ a]) simp
next
  case (Cons d pre)
  obtain evs r where v: "validateDoc m ot d = (evs, r)" by (cases "validateDoc m ot d")
  from Cons.prems(1) have p: "passed m ot fe d" and ps: "list_all (passed m ot fe) pre" by simp_all
  from p v obtain rs where r: "r = Inr rs" and rs: "\<not> fe \<or> rs = []"
    by (auto simp: passed_def split: sum.splits)
  let ?a3 = "handleResults e d rs (emit evs a)"
  have go: "validationLoop e m ot fe ((d # pre) @ rest) a = validationLoop e m ot fe (pre @ rest) ?a3"
    using loop_step_go [of m ot d evs rs a fe e "pre @ rest"] v r rs Cons.prems(2) by auto
  have h3: "fe \<longrightarrow> \<not> hasError ?a3" using rs Cons.prems(2) by (auto simp: handleResults_hasError)
  have t3: "trace ?a3 = trace a @ docEvents e m ot d"
    using v r by (simp add: handleResults_trace docEvents_def)
  from Cons.IH [OF ps h3] obtain a1 where
    1: "validationLoop e m ot fe (pre @ rest) ?a3 = validationLoop e m ot fe rest a1"
    and 2: "trace a1 = trace ?a3 @ concat (map (docEvents e m ot) pre)"
    and 3: "fe \<longrightarrow> \<not> hasError a1" and 4: "hasError ?a3 \<longrightarrow> hasError a1"
    and 5: "totalErrors ?a3 \<le> totalErrors a1" by blast
  have "trace a1 = trace a @ concat (map (docEvents e m ot) (d # pre))"
    using 2 t3 by simp
  moreover have "hasError a \<longrightarrow> hasError a1" using 4 by (simp add: handleResults_hasError)
  moreover have "totalErrors a \<le> totalErrors a1" using 5 by (simp add: handleResults_totalErrors)
  ultimately show ?case using go 1 3 by auto
qed

section \<open>Lemmas about the patterns\<close>

subsection \<open>The matcher computes the meaning\<close>

lemma advances_refl: "advances p p"
  by (simp add: advances_def)

lemma advances_trans: "advances p m \<Longrightarrow> advances m q \<Longrightarrow> advances p q"
  by (auto simp: advances_def)

lemma advances_rtranclp:
  assumes "R\<^sup>*\<^sup>* p q" and "\<And>a b. R a b \<Longrightarrow> advances a b"
  shows "advances p q"
  using assms(1)
proof (induction rule: rtranclp_induct)
  case base
  show ?case by (rule advances_refl)
next
  case (step y z)
  from step.IH assms(2) [OF step.hyps(2)] show ?case by (rule advances_trans)
qed

lemma sem_advances: "sem r p q \<Longrightarrow> advances p q"
proof (induction r arbitrary: p q)
  case Empty
  then show ?case by (simp add: advances_refl)
next
  case (Chr c)
  then show ?case by (auto simp: advances_def)
next
  case AnyChar
  then show ?case by (auto simp: advances_def)
next
  case BOL
  then show ?case by (simp add: advances_refl)
next
  case EOL
  then show ?case by (simp add: advances_refl)
next
  case (Seq a b)
  from Seq.prems obtain m where "sem a p m" "sem b m q" by auto
  then have "advances p m" "advances m q" using Seq.IH by blast+
  then show ?case by (rule advances_trans)
next
  case (Alt a b)
  from Alt.prems have "sem a p q \<or> sem b p q" by simp
  then show ?case using Alt.IH by blast
next
  case (Star a)
  from Star.prems have "(sem a)\<^sup>*\<^sup>* p q" by simp
  then show ?case using Star.IH by (rule advances_rtranclp)
next
  case (Plus a)
  from Plus.prems obtain m where "sem a p m" "(sem a)\<^sup>*\<^sup>* m q" by auto
  then have "advances p m" "advances m q"
    using Plus.IH by (blast intro: advances_rtranclp)+
  then show ?case by (rule advances_trans)
next
  case (Opt a)
  from Opt.prems have "q = p \<or> sem a p q" by simp
  then show ?case using Opt.IH advances_refl by blast
qed

lemma advances_length: "advances p q \<Longrightarrow> length (snd q) \<le> length (snd p)"
  by (auto simp: advances_def)

lemma advances_same: "advances p q \<Longrightarrow> length (snd q) = length (snd p) \<Longrightarrow> q = p"
  by (cases p, cases q) (auto simp: advances_def)

lemma starClosure_sound:
  "q \<in> set (starClosure n f ps) \<Longrightarrow> \<exists>p\<in>set ps. (\<lambda>a b. b \<in> set (f a))\<^sup>*\<^sup>* p q"
proof (induction n arbitrary: ps q)
  case 0
  then show ?case by auto
next
  case (Suc n)
  let ?next = "remdups (concat (map (\<lambda>p. filter (\<lambda>q. length (snd q) < length (snd p)) (f p)) ps))"
  from Suc.prems have ne: "ps \<noteq> []" by (auto split: if_splits)
  from Suc.prems ne consider "q \<in> set ps" | "q \<in> set (starClosure n f ?next)" by auto
  then show ?case
  proof cases
    case 1
    then show ?thesis by auto
  next
    case 2
    from Suc.IH [OF 2] obtain p' where p': "p' \<in> set ?next" and r: "(\<lambda>a b. b \<in> set (f a))\<^sup>*\<^sup>* p' q"
      by blast
    from p' obtain p where "p \<in> set ps" "p' \<in> set (f p)" by auto
    with r show ?thesis by (meson converse_rtranclp_into_rtranclp)
  qed
qed

lemma starClosure_complete:
  assumes "(\<lambda>a b. b \<in> set (f a) \<and> length (snd b) < length (snd a))\<^sup>*\<^sup>* p q"
  shows "p \<in> set ps \<Longrightarrow> \<forall>x\<in>set ps. length (snd x) \<le> n \<Longrightarrow> q \<in> set (starClosure n f ps)"
  using assms
proof (induction arbitrary: n ps rule: converse_rtranclp_induct)
  case base
  then show ?case by (cases n) auto
next
  case (step y z)
  let ?next = "remdups (concat (map (\<lambda>p. filter (\<lambda>q. length (snd q) < length (snd p)) (f p)) ps))"
  from step.hyps(1) have zy: "z \<in> set (f y)" "length (snd z) < length (snd y)" by auto
  from step.prems zy obtain k where n: "n = Suc k" by (cases n) auto
  have z: "z \<in> set ?next" using zy step.prems(1) by auto
  have b: "\<forall>x\<in>set ?next. length (snd x) \<le> k"
    using step.prems(2) n by fastforce
  from step.IH [OF z b] have "q \<in> set (starClosure k f ?next)" .
  with n step.prems(1) show ?case by auto
qed

lemma strict_closure:
  assumes "R\<^sup>*\<^sup>* p q" and "\<And>a b. R a b \<Longrightarrow> b = a \<or> S a b"
  shows "S\<^sup>*\<^sup>* p q"
  using assms(1)
proof (induction rule: rtranclp_induct)
  case base
  show ?case by simp
next
  case (step y z)
  from assms(2) [OF step.hyps(2)] step.IH show ?case by auto
qed

lemma starClosure_set:
  assumes f: "\<And>a b. b \<in> set (f a) \<longleftrightarrow> R a b"
    and adv: "\<And>a b. R a b \<Longrightarrow> advances a b"
    and bound: "\<forall>x\<in>set ps. length (snd x) \<le> n"
  shows "set (starClosure n f ps) = {q. \<exists>p\<in>set ps. R\<^sup>*\<^sup>* p q}"
proof (intro set_eqI iffI)
  fix q assume "q \<in> set (starClosure n f ps)"
  from starClosure_sound [OF this] show "q \<in> {q. \<exists>p\<in>set ps. R\<^sup>*\<^sup>* p q}"
    by (simp add: f)
next
  fix q assume "q \<in> {q. \<exists>p\<in>set ps. R\<^sup>*\<^sup>* p q}"
  then obtain p where p: "p \<in> set ps" and r: "R\<^sup>*\<^sup>* p q" by blast
  have "\<And>a b. R a b \<Longrightarrow> b = a \<or> (b \<in> set (f a) \<and> length (snd b) < length (snd a))"
  proof -
    fix a b assume ab: "R a b"
    from adv [OF ab] have "length (snd b) \<le> length (snd a)" by (rule advances_length)
    moreover have "length (snd b) = length (snd a) \<Longrightarrow> b = a"
      using adv [OF ab] by (rule advances_same)
    ultimately show "b = a \<or> (b \<in> set (f a) \<and> length (snd b) < length (snd a))"
      using ab f by (cases "length (snd b) = length (snd a)") auto
  qed
  with r have "(\<lambda>a b. b \<in> set (f a) \<and> length (snd b) < length (snd a))\<^sup>*\<^sup>* p q"
    by (rule strict_closure)
  from starClosure_complete [OF this p bound] show "q \<in> set (starClosure n f ps)" .
qed

theorem matchR_sem: "q \<in> set (matchR r p) \<longleftrightarrow> sem r p q"
proof (induction r arbitrary: p q)
  case Empty
  show ?case by auto
next
  case (Chr c)
  show ?case by (cases p, cases q) (auto split: list.splits)
next
  case AnyChar
  show ?case by (cases p, cases q) (auto split: list.splits)
next
  case BOL
  show ?case by auto
next
  case EOL
  show ?case by auto
next
  case (Seq a b)
  have "q \<in> set (matchR (Seq a b) p) \<longleftrightarrow> (\<exists>m. m \<in> set (matchR a p) \<and> q \<in> set (matchR b m))"
    by (simp add: Bex_def)
  then show ?case by (simp add: Seq.IH)
next
  case (Alt a b)
  then show ?case by auto
next
  case (Star a)
  have "set (starClosure (length (snd p)) (matchR a) [p]) = {q. \<exists>x\<in>set [p]. (sem a)\<^sup>*\<^sup>* x q}"
  proof (rule starClosure_set)
    show "\<And>x y. y \<in> set (matchR a x) \<longleftrightarrow> sem a x y" by (rule Star.IH)
    show "\<And>x y. sem a x y \<Longrightarrow> advances x y" by (rule sem_advances)
    show "\<forall>x\<in>set [p]. length (snd x) \<le> length (snd p)" by simp
  qed
  then show ?case by simp
next
  case (Plus a)
  have "set (starClosure (length (snd p)) (matchR a) (matchR a p)) =
          {q. \<exists>x\<in>set (matchR a p). (sem a)\<^sup>*\<^sup>* x q}"
  proof (rule starClosure_set)
    show "\<And>x y. y \<in> set (matchR a x) \<longleftrightarrow> sem a x y" by (rule Plus.IH)
    show "\<And>x y. sem a x y \<Longrightarrow> advances x y" by (rule sem_advances)
    show "\<forall>x\<in>set (matchR a p). length (snd x) \<le> length (snd p)"
    proof
      fix x assume "x \<in> set (matchR a p)"
      then have "sem a p x" by (simp add: Plus.IH)
      then show "length (snd x) \<le> length (snd p)"
        by (intro advances_length sem_advances)
    qed
  qed
  then have "q \<in> set (matchR (Plus a) p) \<longleftrightarrow> (\<exists>m. m \<in> set (matchR a p) \<and> (sem a)\<^sup>*\<^sup>* m q)"
    by (simp add: Bex_def)
  then show ?case by (simp add: Plus.IH)
next
  case (Opt a)
  then show ?case by auto
qed

subsection \<open>Sequences of dots and characters\<close>

lemma noLineBreak_simps [simp]:
  "noLineBreak []"
  "noLineBreak (x # xs) \<longleftrightarrow> \<not> isLineTerminator x \<and> noLineBreak xs"
  "noLineBreak (xs @ ys) \<longleftrightarrow> noLineBreak xs \<and> noLineBreak ys"
  by (simp_all add: noLineBreak_def)

lemma sem_mkSeq_Cons:
  "sem (mkSeq (r # rs)) p (b', v) \<longleftrightarrow> (\<exists>c w. sem r p (c, w) \<and> sem (mkSeq rs) (c, w) (b', v))"
  by (cases rs) auto

lemma dots_forward:
  assumes "(sem AnyChar)\<^sup>*\<^sup>* p q"
  shows "\<exists>t. snd p = t @ snd q \<and> noLineBreak t \<and> fst q = (fst p \<and> t = [])"
  using assms
proof (induction rule: rtranclp_induct)
  case base
  show ?case by simp
next
  case (step y z)
  then obtain t where t: "snd p = t @ snd y" "noLineBreak t" by blast
  from step.hyps(2) obtain x where "snd y = x # snd z" "\<not> isLineTerminator x" "\<not> fst z" by auto
  with t have "snd p = (t @ [x]) @ snd z \<and> noLineBreak (t @ [x]) \<and> fst z = (fst p \<and> t @ [x] = [])"
    by simp
  then show ?case by blast
qed

lemma dots_backward:
  "noLineBreak t \<Longrightarrow> (sem AnyChar)\<^sup>*\<^sup>* (c, t @ v) (c \<and> t = [], v)"
proof (induction t arbitrary: c)
  case Nil
  show ?case by simp
next
  case (Cons x xs)
  define R where "R = sem AnyChar"
  from Cons.prems have x: "\<not> isLineTerminator x" and xs: "noLineBreak xs" by simp_all
  have 1: "R (c, x # xs @ v) (False, xs @ v)" using x by (simp add: R_def)
  have "R\<^sup>*\<^sup>* (False, xs @ v) (False \<and> xs = [], v)" using Cons.IH [OF xs, of False] by (simp only: R_def)
  then have 2: "R\<^sup>*\<^sup>* (False, xs @ v) (False, v)" by (simp only: simp_thms)
  have "R\<^sup>*\<^sup>* (c, x # xs @ v) (False, v)" by (rule converse_rtranclp_into_rtranclp [OF 1 2])
  then have "R\<^sup>*\<^sup>* (c, (x # xs) @ v) (c \<and> x # xs = [], v)" by (simp only: append_Cons list.distinct simp_thms)
  then show ?case by (simp only: R_def)
qed

lemma sem_dots:
  "sem (Star AnyChar) (b, u) (b', v) \<longleftrightarrow> (\<exists>t. u = t @ v \<and> noLineBreak t \<and> b' = (b \<and> t = []))"
proof
  assume "sem (Star AnyChar) (b, u) (b', v)"
  then have "(sem AnyChar)\<^sup>*\<^sup>* (b, u) (b', v)" by simp
  from dots_forward [OF this] show "\<exists>t. u = t @ v \<and> noLineBreak t \<and> b' = (b \<and> t = [])" by simp
next
  assume "\<exists>t. u = t @ v \<and> noLineBreak t \<and> b' = (b \<and> t = [])"
  then obtain t where "u = t @ v" "noLineBreak t" "b' = (b \<and> t = [])" by blast
  with dots_backward [of t b v] show "sem (Star AnyChar) (b, u) (b', v)" by simp
qed

lemma accepts_iff: "accepts rs b u \<longleftrightarrow> (\<exists>b' v. sem (mkSeq rs) (b, u) (b', v))"
  by (simp add: accepts_def)

lemma accepts_Nil [simp]: "accepts [] b u"
  by (simp add: accepts_def)

lemma sem_chr: "sem (Chr c) (b, u) (b', v) \<longleftrightarrow> u = c # v \<and> \<not> b'"
  by simp

lemma sem_opt_chr:
  "sem (Opt (Chr c)) (b, u) (b', v) \<longleftrightarrow> (b' = b \<and> v = u) \<or> (u = c # v \<and> \<not> b')"
  by simp

lemma sem_bol: "sem BOL (b, u) (b', v) \<longleftrightarrow> b \<and> b' = b \<and> v = u"
  by auto

lemma sem_eol: "sem EOL (b, u) (b', v) \<longleftrightarrow> u = [] \<and> b' = b \<and> v = u"
  by auto

lemma accepts_Cons:
  "accepts (r # rs) b u \<longleftrightarrow> (\<exists>c w. sem r (b, u) (c, w) \<and> accepts rs c w)"
proof
  assume "accepts (r # rs) b u"
  then obtain b' v where "sem (mkSeq (r # rs)) (b, u) (b', v)" unfolding accepts_iff by blast
  then obtain c w where "sem r (b, u) (c, w)" "sem (mkSeq rs) (c, w) (b', v)"
    unfolding sem_mkSeq_Cons by blast
  then have "sem r (b, u) (c, w) \<and> accepts rs c w" unfolding accepts_iff by blast
  then show "\<exists>c w. sem r (b, u) (c, w) \<and> accepts rs c w" by blast
next
  assume "\<exists>c w. sem r (b, u) (c, w) \<and> accepts rs c w"
  then obtain c w where 1: "sem r (b, u) (c, w)" and "accepts rs c w" by blast
  then obtain b' v where 2: "sem (mkSeq rs) (c, w) (b', v)" unfolding accepts_iff by blast
  from 1 2 have "sem (mkSeq (r # rs)) (b, u) (b', v)" unfolding sem_mkSeq_Cons by blast
  then show "accepts (r # rs) b u" unfolding accepts_iff by blast
qed

lemma ex_not_bool: "(\<exists>c. \<not> c \<and> P c) \<longleftrightarrow> P False"
  by (metis (full_types))

lemma ex_eq_bool: "(\<exists>c. c = d \<and> P c) \<longleftrightarrow> P d"
  by simp

lemma accepts_dots [simp]:
  "accepts (Star AnyChar # rs) b u \<longleftrightarrow>
     (\<exists>t w. u = t @ w \<and> noLineBreak t \<and> accepts rs (b \<and> t = []) w)"
proof
  assume "accepts (Star AnyChar # rs) b u"
  then obtain c w t where "u = t @ w" "noLineBreak t" "c = (b \<and> t = [])" "accepts rs c w"
    unfolding accepts_Cons sem_dots by blast
  then have "u = t @ w \<and> noLineBreak t \<and> accepts rs (b \<and> t = []) w" by simp
  then show "\<exists>t w. u = t @ w \<and> noLineBreak t \<and> accepts rs (b \<and> t = []) w" by blast
next
  assume "\<exists>t w. u = t @ w \<and> noLineBreak t \<and> accepts rs (b \<and> t = []) w"
  then obtain t w where t: "u = t @ w" "noLineBreak t" and a: "accepts rs (b \<and> t = []) w" by blast
  from t have "sem (Star AnyChar) (b, u) (b \<and> t = [], w)" unfolding sem_dots by blast
  with a show "accepts (Star AnyChar # rs) b u" unfolding accepts_Cons by blast
qed

lemma accepts_chr [simp]:
  "accepts (Chr c # rs) b u \<longleftrightarrow> (\<exists>w. u = c # w \<and> accepts rs False w)"
proof -
  have "accepts (Chr c # rs) b u \<longleftrightarrow> (\<exists>w d. \<not> d \<and> (u = c # w \<and> accepts rs d w))"
    unfolding accepts_Cons sem_chr by (subst ex_comm) (simp only: conj_ac)
  then show ?thesis unfolding ex_not_bool .
qed

lemma accepts_opt_chr [simp]:
  "accepts (Opt (Chr c) # rs) b u \<longleftrightarrow>
     accepts rs b u \<or> (\<exists>w. u = c # w \<and> accepts rs False w)"
proof
  assume "accepts (Opt (Chr c) # rs) b u"
  then obtain d w where s: "(d = b \<and> w = u) \<or> (u = c # w \<and> \<not> d)" and a: "accepts rs d w"
    unfolding accepts_Cons sem_opt_chr by blast
  from s show "accepts rs b u \<or> (\<exists>w. u = c # w \<and> accepts rs False w)"
  proof
    assume "d = b \<and> w = u"
    with a show ?thesis by simp
  next
    assume "u = c # w \<and> \<not> d"
    with a have "u = c # w \<and> accepts rs False w" by simp
    then show ?thesis by blast
  qed
next
  assume "accepts rs b u \<or> (\<exists>w. u = c # w \<and> accepts rs False w)"
  then show "accepts (Opt (Chr c) # rs) b u"
  proof
    assume "accepts rs b u"
    moreover have "sem (Opt (Chr c)) (b, u) (b, u)" unfolding sem_opt_chr by simp
    ultimately show ?thesis unfolding accepts_Cons by blast
  next
    assume "\<exists>w. u = c # w \<and> accepts rs False w"
    then obtain w where w: "u = c # w" and a: "accepts rs False w" by blast
    from w have "sem (Opt (Chr c)) (b, u) (False, w)" unfolding sem_opt_chr by simp
    with a show ?thesis unfolding accepts_Cons by blast
  qed
qed

lemma accepts_bol [simp]: "accepts (BOL # rs) b u \<longleftrightarrow> b \<and> accepts rs b u"
proof
  assume "accepts (BOL # rs) b u"
  then obtain d w where "b" "d = b" "w = u" "accepts rs d w"
    unfolding accepts_Cons sem_bol by blast
  then show "b \<and> accepts rs b u" by simp
next
  assume a: "b \<and> accepts rs b u"
  then have "sem BOL (b, u) (b, u)" unfolding sem_bol by simp
  with a show "accepts (BOL # rs) b u" unfolding accepts_Cons by blast
qed

lemma accepts_eol [simp]: "accepts [EOL] b u \<longleftrightarrow> u = []"
proof
  assume "accepts [EOL] b u"
  then obtain b' v where "sem EOL (b, u) (b', v)" unfolding accepts_iff mkSeq.simps by blast
  then show "u = []" unfolding sem_eol by simp
next
  assume "u = []"
  then have "sem EOL (b, u) (b, u)" unfolding sem_eol by simp
  then show "accepts [EOL] b u" unfolding accepts_iff mkSeq.simps by blast
qed

lemma startPositions_set:
  "p \<in> set (startPositions b s) \<longleftrightarrow> (\<exists>t. s = t @ snd p \<and> fst p = (b \<and> t = []))"
proof (induction s arbitrary: b)
  case Nil
  show ?case by (cases p) auto
next
  case (Cons x xs)
  show ?case
  proof
    assume "p \<in> set (startPositions b (x # xs))"
    then consider "p = (b, x # xs)" | "p \<in> set (startPositions False xs)" by auto
    then show "\<exists>t. x # xs = t @ snd p \<and> fst p = (b \<and> t = [])"
    proof cases
      case 1
      then show ?thesis by simp
    next
      case 2
      then obtain t where "xs = t @ snd p" "\<not> fst p" using Cons.IH by auto
      then have "x # xs = (x # t) @ snd p \<and> fst p = (b \<and> x # t = [])" by simp
      then show ?thesis by blast
    qed
  next
    assume "\<exists>t. x # xs = t @ snd p \<and> fst p = (b \<and> t = [])"
    then obtain t where t: "x # xs = t @ snd p" "fst p = (b \<and> t = [])" by blast
    show "p \<in> set (startPositions b (x # xs))"
    proof (cases t)
      case Nil
      with t have "p = (b, x # xs)" by (cases p) simp
      then show ?thesis by simp
    next
      case (Cons y ys)
      with t have "xs = ys @ snd p \<and> fst p = (False \<and> ys = [])" by simp
      then have "p \<in> set (startPositions False xs)" using Cons.IH by blast
      then show ?thesis by simp
    qed
  qed
qed

lemma matchR_nonempty: "matchR r p \<noteq> [] \<longleftrightarrow> (\<exists>q. sem r p q)"
proof -
  have "matchR r p \<noteq> [] \<longleftrightarrow> (\<exists>q. q \<in> set (matchR r p))"
    by (cases "matchR r p") auto
  then show ?thesis by (simp only: matchR_sem)
qed

lemma regexTest_sem:
  "regexTest r s \<longleftrightarrow> (\<exists>t u q. s = t @ u \<and> sem r (t = [], u) q)"
proof
  assume "regexTest r s"
  then obtain p q where p: "p \<in> set (startPositions True s)" and q: "sem r p q"
    unfolding regexTest_def list_ex_iff matchR_nonempty by blast
  from p obtain t where t: "s = t @ snd p" "fst p = (t = [])"
    unfolding startPositions_set by auto
  from t(2) have "p = (t = [], snd p)" by (cases p) simp
  with q have "sem r (t = [], snd p) q" by simp
  with t(1) show "\<exists>t u q. s = t @ u \<and> sem r (t = [], u) q" by blast
next
  assume "\<exists>t u q. s = t @ u \<and> sem r (t = [], u) q"
  then obtain t u q where s: "s = t @ u" and q: "sem r (t = [], u) q" by blast
  from s have "(t = [], u) \<in> set (startPositions True s)"
    unfolding startPositions_set by auto
  with q show "regexTest r s"
    unfolding regexTest_def list_ex_iff matchR_nonempty by blast
qed

lemma regexTest_accepts:
  "regexTest (mkSeq rs) s \<longleftrightarrow> (\<exists>t u. s = t @ u \<and> accepts rs (t = []) u)"
  unfolding regexTest_sem accepts_def by blast

lemma accepts_lit:
  "accepts (map Chr cs @ rs) b u \<longleftrightarrow> (\<exists>w. u = cs @ w \<and> accepts rs (b \<and> cs = []) w)"
proof (induction cs arbitrary: b u)
  case Nil
  show ?case by simp
next
  case (Cons c cs)
  have "accepts (map Chr (c # cs) @ rs) b u \<longleftrightarrow> (\<exists>w. u = c # w \<and> accepts (map Chr cs @ rs) False w)"
    by simp
  also have "\<dots> \<longleftrightarrow> (\<exists>w. u = c # w \<and> (\<exists>w'. w = cs @ w' \<and> accepts rs False w'))"
    by (simp only: Cons.IH simp_thms)
  also have "\<dots> \<longleftrightarrow> (\<exists>w'. u = (c # cs) @ w' \<and> accepts rs (b \<and> c # cs = []) w')"
    by (simp only: append_Cons list.distinct simp_thms) blast
  finally show ?case .
qed

subsection \<open>The three pattern literals\<close>

lemma hasScriptTag_compiled: "compile hasScriptTagPattern = Inr (mkSeq scriptRegex)"
  by code_simp

lemma hasScriptTag_unfolded:
  "hasScriptTag s \<longleftrightarrow> (\<exists>t u. s = t @ u \<and> accepts scriptRegex (t = []) u)"
  by (simp only: hasScriptTag_def literalTest_def hasScriptTag_compiled sum.case regexTest_accepts)

lemma accepts_scriptRegex:
  "accepts scriptRegex b u \<longleftrightarrow>
     (\<exists>t1 t2 w. u = t1 @ ''<script'' @ t2 @ ''>'' @ w \<and> noLineBreak t1 \<and> noLineBreak t2)"
proof -
  have "accepts scriptRegex b u \<longleftrightarrow>
     (\<exists>t w. u = t @ w \<and> noLineBreak t \<and>
        (\<exists>wa. w = ''<script'' @ wa \<and>
           (\<exists>ta w. wa = ta @ w \<and> noLineBreak ta \<and> (\<exists>wa. w = ''>'' @ wa))))"
    unfolding scriptRegex_def accepts_dots accepts_lit by (simp only: accepts_Nil simp_thms)
  also have "\<dots> \<longleftrightarrow>
     (\<exists>t1 t2 w. u = t1 @ ''<script'' @ t2 @ ''>'' @ w \<and> noLineBreak t1 \<and> noLineBreak t2)"
    by blast
  finally show ?thesis .
qed

lemma hasScriptTag_iff: "hasScriptTag s \<longleftrightarrow> scriptMarker s"
proof
  assume "hasScriptTag s"
  then obtain t t1 t2 w where "s = t @ t1 @ ''<script'' @ t2 @ ''>'' @ w" "noLineBreak t2"
    unfolding hasScriptTag_unfolded accepts_scriptRegex by blast
  then have "s = (t @ t1) @ ''<script'' @ t2 @ ''>'' @ w \<and> noLineBreak t2" by simp
  then show "scriptMarker s" unfolding scriptMarker_def by blast
next
  assume "scriptMarker s"
  then obtain a b c where s: "s = a @ ''<script'' @ b @ ''>'' @ c" and b: "noLineBreak b"
    unfolding scriptMarker_def by blast
  have "''<script'' @ b @ ''>'' @ c = [] @ ''<script'' @ b @ ''>'' @ c \<and> noLineBreak [] \<and> noLineBreak b"
    using b by simp
  then have "accepts scriptRegex (a = []) (''<script'' @ b @ ''>'' @ c)"
    unfolding accepts_scriptRegex by blast
  with s show "hasScriptTag s" unfolding hasScriptTag_unfolded by blast
qed

lemma isTs_compiled: "compile isTsPattern = Inr (mkSeq tsRegex)"
  by code_simp

lemma isImportOtherTs_compiled: "compile isImportOtherTsPattern = Inr (mkSeq srcRegex)"
  by code_simp

lemma isTs_unfolded: "isTs s \<longleftrightarrow> (\<exists>t u. s = t @ u \<and> accepts tsRegex (t = []) u)"
  by (simp only: isTs_def literalTest_def isTs_compiled sum.case regexTest_accepts)

lemma isImportOtherTs_unfolded:
  "isImportOtherTs s \<longleftrightarrow> (\<exists>t u. s = t @ u \<and> accepts srcRegex (t = []) u)"
  by (simp only: isImportOtherTs_def literalTest_def isImportOtherTs_compiled sum.case regexTest_accepts)

lemma accepts_dots_I: "noLineBreak t \<Longrightarrow> accepts rs (b \<and> t = []) w \<Longrightarrow> accepts (Star AnyChar # rs) b (t @ w)"
  unfolding accepts_dots by blast

lemma accepts_lit_I: "accepts rs (b \<and> cs = []) w \<Longrightarrow> accepts (map Chr cs @ rs) b (cs @ w)"
  unfolding accepts_lit by blast

lemma accepts_any_flag:
  "accepts tailRegex f w \<longleftrightarrow> (\<exists>c d. w = [dquote] @ c @ ''>'' @ d \<and> noLineBreak c)"
proof
  assume "accepts tailRegex f w"
  then obtain w1 t w2 w3 where "w = [dquote] @ w1" "w1 = t @ w2" "noLineBreak t" "w2 = ''>'' @ w3"
    unfolding tailRegex_def accepts_dots accepts_lit by blast
  then have "w = [dquote] @ t @ ''>'' @ w3 \<and> noLineBreak t" by simp
  then show "\<exists>c d. w = [dquote] @ c @ ''>'' @ d \<and> noLineBreak c" by blast
next
  assume "\<exists>c d. w = [dquote] @ c @ ''>'' @ d \<and> noLineBreak c"
  then obtain c d where w: "w = [dquote] @ c @ ''>'' @ d" and c: "noLineBreak c" by blast
  show "accepts tailRegex f w"
    unfolding tailRegex_def w
    by (intro accepts_lit_I accepts_dots_I c accepts_Nil)
qed

lemma accepts_opt_skip_I: "accepts rs b u \<Longrightarrow> accepts (Opt (Chr c) # rs) b u"
  unfolding accepts_opt_chr by blast

lemma accepts_opt_take_I: "accepts rs False w \<Longrightarrow> accepts (Opt (Chr c) # rs) b (c # w)"
  unfolding accepts_opt_chr by blast

lemma accepts_tailRegex_I: "noLineBreak c \<Longrightarrow> accepts tailRegex f ([dquote] @ c @ ''>'' @ d)"
  unfolding accepts_any_flag by blast

lemma accepts_tsRegex:
  "accepts tsRegex b u \<longleftrightarrow>
     (\<exists>t1 t2 x c d. u = t1 @ ''<script'' @ t2 @ (''lang='' @ [dquote] @ ''ts'') @ x @ [dquote] @ c @ ''>'' @ d \<and>
        (x = [] \<or> x = ''x'') \<and> noLineBreak t1 \<and> noLineBreak t2 \<and> noLineBreak c)"
  (is "?L \<longleftrightarrow> ?R")
proof
  assume ?L
  then obtain t w where 1: "u = t @ w" "noLineBreak t"
    and "accepts (map Chr ''<script'' @ Star AnyChar # map Chr (''lang='' @ [dquote] @ ''ts'')
       @ Opt (Chr CHR ''x'') # tailRegex) (b \<and> t = []) w"
    unfolding tsRegex_def accepts_dots by blast
  then obtain w1 f1 where 2: "w = ''<script'' @ w1"
    and "accepts (Star AnyChar # map Chr (''lang='' @ [dquote] @ ''ts'')
       @ Opt (Chr CHR ''x'') # tailRegex) f1 w1"
    unfolding accepts_lit by blast
  then obtain t2 w2 f2 where 3: "w1 = t2 @ w2" "noLineBreak t2"
    and "accepts (map Chr (''lang='' @ [dquote] @ ''ts'') @ Opt (Chr CHR ''x'') # tailRegex) f2 w2"
    unfolding accepts_dots by blast
  then obtain w3 f3 where 4: "w2 = (''lang='' @ [dquote] @ ''ts'') @ w3"
    and "accepts (Opt (Chr CHR ''x'') # tailRegex) f3 w3"
    unfolding accepts_lit by blast
  then have "accepts tailRegex f3 w3 \<or> (\<exists>w4. w3 = CHR ''x'' # w4 \<and> accepts tailRegex False w4)"
    unfolding accepts_opt_chr by blast
  then obtain x c d where 5: "w3 = x @ [dquote] @ c @ ''>'' @ d" "x = [] \<or> x = ''x''" "noLineBreak c"
  proof
    assume "accepts tailRegex f3 w3"
    then obtain c d where "w3 = [] @ [dquote] @ c @ ''>'' @ d" "noLineBreak c"
      unfolding accepts_any_flag by auto
    then show ?thesis using that by blast
  next
    assume "\<exists>w4. w3 = CHR ''x'' # w4 \<and> accepts tailRegex False w4"
    then obtain c d where "w3 = ''x'' @ [dquote] @ c @ ''>'' @ d" "noLineBreak c"
      unfolding accepts_any_flag by auto
    then show ?thesis using that by blast
  qed
  have "u = t @ ''<script'' @ t2 @ (''lang='' @ [dquote] @ ''ts'') @ x @ [dquote] @ c @ ''>'' @ d"
    unfolding 1 2 3 4 5 ..
  with 1 3 5 show ?R by blast
next
  assume ?R
  then obtain t1 t2 x c d where
    u: "u = t1 @ ''<script'' @ t2 @ (''lang='' @ [dquote] @ ''ts'') @ x @ [dquote] @ c @ ''>'' @ d"
    and x: "x = [] \<or> x = ''x''" and n: "noLineBreak t1" "noLineBreak t2" "noLineBreak c" by blast
  have o: "accepts (Opt (Chr CHR ''x'') # tailRegex) f (x @ [dquote] @ c @ ''>'' @ d)" for f
    using x
  proof
    assume "x = []"
    then show ?thesis using accepts_opt_skip_I [OF accepts_tailRegex_I [OF n(3)]] by simp
  next
    assume "x = ''x''"
    then show ?thesis using accepts_opt_take_I [OF accepts_tailRegex_I [OF n(3)]] by simp
  qed
  show ?L
    unfolding tsRegex_def u
    by (intro accepts_dots_I accepts_lit_I n o)
qed

lemma accepts_srcRegex:
  "accepts srcRegex b u \<longleftrightarrow>
     (\<exists>t1 t2 v c d. u = t1 @ ''<script'' @ t2 @ (''src='' @ [dquote]) @ v @ [dquote] @ c @ ''>'' @ d \<and>
        noLineBreak t1 \<and> noLineBreak t2 \<and> noLineBreak v \<and> noLineBreak c)"
  (is "?L \<longleftrightarrow> ?R")
proof
  assume ?L
  then obtain t w where 1: "u = t @ w" "noLineBreak t"
    and "accepts (map Chr ''<script'' @ Star AnyChar # map Chr (''src='' @ [dquote])
       @ Star AnyChar # tailRegex) (b \<and> t = []) w"
    unfolding srcRegex_def accepts_dots by blast
  then obtain w1 f1 where 2: "w = ''<script'' @ w1"
    and "accepts (Star AnyChar # map Chr (''src='' @ [dquote]) @ Star AnyChar # tailRegex) f1 w1"
    unfolding accepts_lit by blast
  then obtain t2 w2 f2 where 3: "w1 = t2 @ w2" "noLineBreak t2"
    and "accepts (map Chr (''src='' @ [dquote]) @ Star AnyChar # tailRegex) f2 w2"
    unfolding accepts_dots by blast
  then obtain w3 f3 where 4: "w2 = (''src='' @ [dquote]) @ w3"
    and "accepts (Star AnyChar # tailRegex) f3 w3"
    unfolding accepts_lit by blast
  then obtain v w4 f4 where 5: "w3 = v @ w4" "noLineBreak v" and "accepts tailRegex f4 w4"
    unfolding accepts_dots by blast
  then obtain c d where 6: "w4 = [dquote] @ c @ ''>'' @ d" "noLineBreak c"
    unfolding accepts_any_flag by blast
  have "u = t @ ''<script'' @ t2 @ (''src='' @ [dquote]) @ v @ [dquote] @ c @ ''>'' @ d"
    unfolding 1 2 3 4 5 6 ..
  with 1 3 5 6 show ?R by blast
next
  assume ?R
  then obtain t1 t2 v c d where
    u: "u = t1 @ ''<script'' @ t2 @ (''src='' @ [dquote]) @ v @ [dquote] @ c @ ''>'' @ d"
    and n: "noLineBreak t1" "noLineBreak t2" "noLineBreak v" "noLineBreak c" by blast
  show ?L
    unfolding srcRegex_def u
    by (intro accepts_dots_I accepts_lit_I accepts_tailRegex_I n)
qed

lemma isTs_iff: "isTs s \<longleftrightarrow> strictLang s"
proof
  assume "isTs s"
  then obtain t t1 t2 x c d where
    "s = t @ t1 @ ''<script'' @ t2 @ (''lang='' @ [dquote] @ ''ts'') @ x @ [dquote] @ c @ ''>'' @ d"
    "x = [] \<or> x = ''x''" "noLineBreak t2" "noLineBreak c"
    unfolding isTs_unfolded accepts_tsRegex by blast
  then have "s = (t @ t1) @ ''<script'' @ t2 @ (''lang='' @ [dquote] @ ''ts'') @ x @ [dquote] @ c @ ''>'' @ d
      \<and> (x = [] \<or> x = ''x'') \<and> noLineBreak t2 \<and> noLineBreak c" by simp
  then show "strictLang s" unfolding strictLang_def by blast
next
  assume "strictLang s"
  then obtain a b x c d where
    s: "s = a @ ''<script'' @ b @ (''lang='' @ [dquote] @ ''ts'') @ x @ [dquote] @ c @ ''>'' @ d"
    and x: "x = [] \<or> x = ''x''" and n: "noLineBreak b" "noLineBreak c"
    unfolding strictLang_def by blast
  let ?u = "''<script'' @ b @ (''lang='' @ [dquote] @ ''ts'') @ x @ [dquote] @ c @ ''>'' @ d"
  have "?u = [] @ ?u \<and> (x = [] \<or> x = ''x'') \<and> noLineBreak [] \<and> noLineBreak b \<and> noLineBreak c"
    using x n by simp
  then have "accepts tsRegex (a = []) ?u" unfolding accepts_tsRegex by blast
  with s show "isTs s" unfolding isTs_unfolded by blast
qed

lemma isImportOtherTs_iff: "isImportOtherTs s \<longleftrightarrow> externalSrc s"
proof
  assume "isImportOtherTs s"
  then obtain t t1 t2 v c d where
    "s = t @ t1 @ ''<script'' @ t2 @ (''src='' @ [dquote]) @ v @ [dquote] @ c @ ''>'' @ d"
    "noLineBreak t2" "noLineBreak v" "noLineBreak c"
    unfolding isImportOtherTs_unfolded accepts_srcRegex by blast
  then have "s = (t @ t1) @ ''<script'' @ t2 @ (''src='' @ [dquote]) @ v @ [dquote] @ c @ ''>'' @ d
      \<and> noLineBreak t2 \<and> noLineBreak v \<and> noLineBreak c" by simp
  then show "externalSrc s" unfolding externalSrc_def by blast
next
  assume "externalSrc s"
  then obtain a b v c d where
    s: "s = a @ ''<script'' @ b @ (''src='' @ [dquote]) @ v @ [dquote] @ c @ ''>'' @ d"
    and n: "noLineBreak b" "noLineBreak v" "noLineBreak c"
    unfolding externalSrc_def by blast
  let ?u = "''<script'' @ b @ (''src='' @ [dquote]) @ v @ [dquote] @ c @ ''>'' @ d"
  have "?u = [] @ ?u \<and> noLineBreak [] \<and> noLineBreak b \<and> noLineBreak v \<and> noLineBreak c"
    using n by simp
  then have "accepts srcRegex (a = []) ?u" unfolding accepts_srcRegex by blast
  with s show "isImportOtherTs s" unfolding isImportOtherTs_unfolded by blast
qed

subsection \<open>The exclusion pattern on plain entries\<close>

lemma plain_simps [simp]:
  "plain []"
  "plain (c # cs) \<longleftrightarrow> (c \<notin> set ''^$.*+?()[]{}|'' \<and> c \<noteq> bslash) \<and> plain cs"
  by (simp_all add: plain_def)

lemma tokenize_plain: "plain r \<Longrightarrow> tokenize (r @ rest) = lits r @ tokenize rest"
  by (induction r) (simp_all add: lits_def)

lemma tokenize_bar: "tokenize (''|'' @ rest) = TBar # tokenize rest"
  by (simp add: bslash_def)

lemma tokenize_join:
  "list_all plain rs \<Longrightarrow> tokenize (joinWith ''|'' rs @ rest) = altTokens rs @ tokenize rest"
proof (induction rs rule: altTokens.induct)
  case 1
  show ?case by simp
next
  case (2 r)
  then show ?case by (simp add: tokenize_plain)
next
  case (3 r r' rs)
  from "3.prems" have p: "plain r" and ps: "list_all plain (r' # rs)" by simp_all
  have "tokenize (joinWith ''|'' (r # r' # rs) @ rest) =
        tokenize (r @ (''|'' @ (joinWith ''|'' (r' # rs) @ rest)))" by simp
  also have "\<dots> = lits r @ TBar # tokenize (joinWith ''|'' (r' # rs) @ rest)"
    by (simp only: tokenize_plain [OF p] tokenize_bar)
  also have "\<dots> = altTokens (r # r' # rs) @ tokenize rest"
    using "3.IH" [OF ps] by simp
  finally show ?case .
qed

lemma tokenize_exclusionPattern:
  "list_all plain rs \<Longrightarrow>
     tokenize (exclusionPattern rs) =
       TAssert BOL # TOpen # altTokens rs @ [TClose, TAtom AnyChar, TQuant QStar, TAssert EOL]"
proof -
  assume p: "list_all plain rs"
  have 1: "tokenize (''^(?:'' @ x) = TAssert BOL # TOpen # tokenize x" for x
    by (simp add: bslash_def)
  have 2: "tokenize '').*$'' = [TClose, TAtom AnyChar, TQuant QStar, TAssert EOL]"
    by (simp add: bslash_def)
  show ?thesis
    unfolding exclusionPattern_def 1 tokenize_join [OF p] 2 ..
qed

lemma parse_lits:
  "parse gs (Frame alts terms q) (lits r @ ts) =
     parse gs (Frame alts (rev (map Chr r) @ terms) (if r = [] then q else AtomRead)) ts"
  by (induction r arbitrary: terms q) (simp_all add: lits_def)

lemma parse_alts:
  "parse (g # gs) (Frame alts [] q0) (altTokens rs @ TClose # ts) =
     parse gs (pushTerm (mkAlt (rev alts @ map lit (alternativesOf rs))) AtomRead g) ts"
proof (induction rs arbitrary: alts q0 rule: altTokens.induct)
  case 1
  show ?case by (simp add: alternativesOf_def lit_def)
next
  case (2 r)
  show ?case by (simp add: parse_lits alternativesOf_def lit_def)
next
  case (3 r r' rs)
  have "parse (g # gs) (Frame alts [] q0) (altTokens (r # r' # rs) @ TClose # ts) =
        parse (g # gs) (Frame (lit r # alts) [] NoTerm) (altTokens (r' # rs) @ TClose # ts)"
    by (simp add: parse_lits lit_def)
  also have "\<dots> = parse gs (pushTerm (mkAlt (rev (lit r # alts) @ map lit (alternativesOf (r' # rs)))) AtomRead g) ts"
    by (rule "3.IH")
  also have "rev (lit r # alts) @ map lit (alternativesOf (r' # rs)) =
             rev alts @ map lit (alternativesOf (r # r' # rs))"
    by (simp add: alternativesOf_def)
  finally show ?case .
qed

lemma compile_exclusionPattern:
  "list_all plain rs \<Longrightarrow>
     compile (exclusionPattern rs) =
       Inr (mkSeq [BOL, mkAlt (map lit (alternativesOf rs)), Star AnyChar, EOL])"
  unfolding compile_def
  by (simp add: tokenize_exclusionPattern parse_alts)

lemma sem_lit: "sem (lit r) (b, u) (b', v) \<longleftrightarrow> u = r @ v \<and> b' = (b \<and> r = [])"
proof (induction r arbitrary: b u)
  case Nil
  show ?case by (auto simp: lit_def)
next
  case (Cons c cs)
  have "sem (lit (c # cs)) (b, u) (b', v) \<longleftrightarrow>
        (\<exists>d w. sem (Chr c) (b, u) (d, w) \<and> sem (lit cs) (d, w) (b', v))"
    unfolding lit_def list.map sem_mkSeq_Cons ..
  also have "\<dots> \<longleftrightarrow> (\<exists>d w. (u = c # w \<and> \<not> d) \<and> (w = cs @ v \<and> b' = (d \<and> cs = [])))"
    unfolding sem_chr Cons.IH ..
  also have "\<dots> \<longleftrightarrow> u = (c # cs) @ v \<and> b' = (b \<and> c # cs = [])"
    by auto
  finally show ?case .
qed

lemma sem_mkAlt: "rs \<noteq> [] \<Longrightarrow> sem (mkAlt rs) p q \<longleftrightarrow> (\<exists>r\<in>set rs. sem r p q)"
proof (induction rs rule: mkAlt.induct)
  case 1
  then show ?case by simp
next
  case (2 r)
  show ?case by simp
next
  case (3 r r' rs)
  then show ?case by simp
qed

lemma alternativesOf_nonempty: "alternativesOf rs \<noteq> []"
  by (simp add: alternativesOf_def)

lemma accepts_alternatives:
  "accepts (mkAlt (map lit (alternativesOf rs)) # rest) b u \<longleftrightarrow>
     (\<exists>r\<in>set (alternativesOf rs). \<exists>w. u = r @ w \<and> accepts rest (b \<and> r = []) w)"
proof
  assume "accepts (mkAlt (map lit (alternativesOf rs)) # rest) b u"
  then obtain c w where 1: "sem (mkAlt (map lit (alternativesOf rs))) (b, u) (c, w)"
    and 2: "accepts rest c w" unfolding accepts_Cons by blast
  from 1 obtain r where r: "r \<in> set (alternativesOf rs)" and "sem (lit r) (b, u) (c, w)"
    using sem_mkAlt [of "map lit (alternativesOf rs)"] alternativesOf_nonempty [of rs] by auto
  then have "u = r @ w" "c = (b \<and> r = [])" unfolding sem_lit by simp_all
  with 2 r show "\<exists>r\<in>set (alternativesOf rs). \<exists>w. u = r @ w \<and> accepts rest (b \<and> r = []) w"
    by blast
next
  assume "\<exists>r\<in>set (alternativesOf rs). \<exists>w. u = r @ w \<and> accepts rest (b \<and> r = []) w"
  then obtain r w where r: "r \<in> set (alternativesOf rs)" and u: "u = r @ w"
    and a: "accepts rest (b \<and> r = []) w" by blast
  from u have "sem (lit r) (b, u) (b \<and> r = [], w)" unfolding sem_lit by simp
  with r have "sem (mkAlt (map lit (alternativesOf rs))) (b, u) (b \<and> r = [], w)"
    using sem_mkAlt [of "map lit (alternativesOf rs)"] alternativesOf_nonempty [of rs] by auto
  with a show "accepts (mkAlt (map lit (alternativesOf rs)) # rest) b u"
    unfolding accepts_Cons by blast
qed

lemma accepts_dots_eol: "accepts [Star AnyChar, EOL] f w \<longleftrightarrow> noLineBreak w"
  unfolding accepts_dots accepts_eol by auto

lemma regexTest_exclusion:
  "regexTest (mkSeq [BOL, mkAlt (map lit (alternativesOf rs)), Star AnyChar, EOL]) t \<longleftrightarrow>
     excludedBy rs t"
proof -
  let ?A = "mkAlt (map lit (alternativesOf rs))"
  have "regexTest (mkSeq [BOL, ?A, Star AnyChar, EOL]) t \<longleftrightarrow>
        (\<exists>t0 u. t = t0 @ u \<and> t0 = [] \<and> accepts [?A, Star AnyChar, EOL] (t0 = []) u)"
    unfolding regexTest_accepts accepts_bol by blast
  also have "\<dots> \<longleftrightarrow> accepts [?A, Star AnyChar, EOL] True t"
    by simp
  also have "\<dots> \<longleftrightarrow> (\<exists>r\<in>set (alternativesOf rs). \<exists>w. t = r @ w \<and> noLineBreak w)"
    unfolding accepts_alternatives accepts_dots_eol ..
  also have "\<dots> \<longleftrightarrow> excludedBy rs t"
  proof
    assume "\<exists>r\<in>set (alternativesOf rs). \<exists>w. t = r @ w \<and> noLineBreak w"
    then obtain r w where r: "r \<in> set (alternativesOf rs)" and t: "t = r @ w" and w: "noLineBreak w"
      by blast
    from t w have "prefix r t \<and> noLineBreak (drop (length r) t)" by simp
    with r show "excludedBy rs t" unfolding excludedBy_def list_ex_iff by blast
  next
    assume "excludedBy rs t"
    then obtain r where r: "r \<in> set (alternativesOf rs)" and p: "prefix r t"
      and n: "noLineBreak (drop (length r) t)" unfolding excludedBy_def list_ex_iff by blast
    from p obtain w where t: "t = r @ w" unfolding prefix_def by blast
    with n have "noLineBreak w" by simp
    with r t show "\<exists>r\<in>set (alternativesOf rs). \<exists>w. t = r @ w \<and> noLineBreak w" by blast
  qed
  finally show ?thesis .
qed

lemma newRegExpTest_exclusion:
  "list_all plain rs \<Longrightarrow> newRegExpTest (exclusionPattern rs) t = Inr (excludedBy rs t)"
  unfolding newRegExpTest_def by (simp only: compile_exclusionPattern sum.case regexTest_exclusion)

lemma filterTargets_exclusion:
  "list_all plain rs \<Longrightarrow>
     filterTargets (exclusionPattern rs) ts = Inr (filter (\<lambda>t. \<not> excludedBy rs t) ts)"
  by (induction ts) (simp_all add: newRegExpTest_exclusion)

lemma selectTargets_exclusion:
  assumes "list_all plain (map (path_resolve e) dirs)"
  shows "selectTargets e vl root strict changedFiles (Some dirs) =
           Inr (filter (\<lambda>t. \<not> excludedBy (map (path_resolve e) dirs) t)
                 (if changedFiles \<noteq> [] then changedFiles
                  else globSync e (path_join e root (globPattern vl strict))))"
  using assms by (simp add: selectTargets_def filterTargets_exclusion Let_def)

section \<open>Lemmas about the run\<close>

lemma finallyBlock_fields:
  "trace (finallyBlock s a) =
     trace a @ released @ summaryEvents s (totalErrors a) @ [ProcessExit (if hasError a then 1 else 0)]"
  "hasError (finallyBlock s a) = hasError a"
  "totalErrors (finallyBlock s a) = totalErrors a"
  "exitCode (finallyBlock s a) = (if hasError a then 1 else 0)"
  by (simp_all add: finallyBlock_def Let_def released_def summaryEvents_def accum.extend_def)

lemma getDiagnostics_eq: "getDiagnostics e s = finallyBlock s (guarded e s initial)"
  by (simp add: getDiagnostics_def initial_def acquired_def)

lemma initial_fields [simp]:
  "trace initial = acquired" "\<not> hasError initial" "totalErrors initial = 0"
  by (simp_all add: initial_def)

lemma loop_events_body: "list_all isLoopEvent evs \<Longrightarrow> list_all isBodyEvent evs"
  by (induction evs) (auto elim: isLoopEvent.elims)

lemma guarded_throw_setup:
  "createModes e (src_workspace s) = Inl err \<Longrightarrow>
     guarded e s a = emit [ConsoleError err] (a\<lparr>hasError := True\<rparr>)"
  by (simp add: guarded_def)

lemma guarded_throw_loop:
  "createModes e (src_workspace s) = Inr m \<Longrightarrow>
   validationLoop e m (src_onlyTemplate s) (src_failExit s) (docs s) a = (Some err, a') \<Longrightarrow>
     guarded e s a = emit [ConsoleError err] (a'\<lparr>hasError := True\<rparr>)"
  by (simp add: guarded_def)

lemma guarded_return:
  "createModes e (src_workspace s) = Inr m \<Longrightarrow>
   validationLoop e m (src_onlyTemplate s) (src_failExit s) (docs s) a = (None, a') \<Longrightarrow>
     guarded e s a = a'"
  by (simp add: guarded_def)

lemma guarded_trace:
  "\<exists>mid. trace (guarded e s initial) = acquired @ mid \<and> list_all isBodyEvent mid"
proof (cases "createModes e (src_workspace s)")
  case (Inl err)
  then have "trace (guarded e s initial) = acquired @ [ConsoleError err]"
    by (simp add: guarded_throw_setup)
  then show ?thesis by simp
next
  case (Inr m)
  obtain x a' where
    l: "validationLoop e m (src_onlyTemplate s) (src_failExit s) (docs s) initial = (x, a')"
    by (cases "validationLoop e m (src_onlyTemplate s) (src_failExit s) (docs s) initial")
  from loop_trace [OF l] obtain evs where
    t: "trace a' = acquired @ evs" and le: "list_all isLoopEvent evs" by auto
  have lb: "list_all isBodyEvent evs" using le by (rule loop_events_body)
  show ?thesis
  proof (cases x)
    case None
    with Inr l t lb show ?thesis by (simp add: guarded_return)
  next
    case (Some err)
    with Inr l t have "trace (guarded e s initial) = acquired @ (evs @ [ConsoleError err])"
      by (simp add: guarded_throw_loop)
    moreover have "list_all isBodyEvent (evs @ [ConsoleError err])" using lb by simp
    ultimately show ?thesis by blast
  qed
qed

lemma count_none: "list_all P xs \<Longrightarrow> \<not> P x \<Longrightarrow> count_list xs x = 0"
  by (induction xs) auto

lemma clean_passed: "clean m ot d \<Longrightarrow> passed m ot fe d"
  by (simp add: clean_def passed_def)

lemma clean_all_passed: "list_all (clean m ot) ds \<Longrightarrow> list_all (passed m ot fe) ds"
  by (induction ds) (simp_all add: clean_passed)

lemma guarded_hasError_iff:
  "\<not> hasError (guarded e s initial) \<longleftrightarrow>
     (\<exists>m. createModes e (src_workspace s) = Inr m \<and> list_all (clean m (src_onlyTemplate s)) (docs s))"
proof (cases "createModes e (src_workspace s)")
  case (Inl err)
  then show ?thesis by (simp add: guarded_throw_setup)
next
  case (Inr m)
  obtain x a' where
    l: "validationLoop e m (src_onlyTemplate s) (src_failExit s) (docs s) initial = (x, a')"
    by (cases "validationLoop e m (src_onlyTemplate s) (src_failExit s) (docs s) initial")
  have c: "(x = None \<and> \<not> hasError a') \<longleftrightarrow> list_all (clean m (src_onlyTemplate s)) (docs s)"
    using loop_clean_iff [OF l] by simp
  show ?thesis
  proof (cases x)
    case None
    with Inr l c show ?thesis by (simp add: guarded_return)
  next
    case (Some err)
    with Inr l c show ?thesis by (simp add: guarded_throw_loop)
  qed
qed

lemma loop_no_console: "list_all isLoopEvent evs \<Longrightarrow> ConsoleError err \<notin> set evs"
  by (induction evs) auto

lemma guarded_hasError_why:
  "hasError (guarded e s initial) \<longleftrightarrow>
     0 < totalErrors (guarded e s initial) \<or> (\<exists>err. ConsoleError err \<in> set (trace (guarded e s initial)))"
proof (cases "createModes e (src_workspace s)")
  case (Inl err)
  then show ?thesis by (auto simp add: guarded_throw_setup)
next
  case (Inr m)
  obtain x a' where
    l: "validationLoop e m (src_onlyTemplate s) (src_failExit s) (docs s) initial = (x, a')"
    by (cases "validationLoop e m (src_onlyTemplate s) (src_failExit s) (docs s) initial")
  show ?thesis
  proof (cases x)
    case None
    from loop_trace [OF l] obtain evs where
      t: "trace a' = acquired @ evs" and le: "list_all isLoopEvent evs" by auto
    have "\<And>err. ConsoleError err \<notin> set (trace a')"
      using t loop_no_console [OF le] by (simp add: acquired_def)
    moreover have "hasError a' \<longleftrightarrow> 0 < totalErrors a'" using loop_counts [OF l] by simp
    ultimately show ?thesis using None Inr l by (simp add: guarded_return)
  next
    case (Some err)
    with Inr l show ?thesis by (auto simp add: guarded_throw_loop)
  qed
qed

lemma readAll_fails:
  "p \<in> set ps \<Longrightarrow> readFile e p = Inl err0 \<Longrightarrow>
     \<exists>err q. readAll e ps = Inl err \<and> q \<in> set ps \<and> readFile e q = Inl err"
proof (induction ps)
  case Nil
  then show ?case by simp
next
  case (Cons x xs)
  show ?case
  proof (cases "readFile e x")
    case (Inl err)
    then show ?thesis by auto
  next
    case (Inr body)
    with Cons.prems have "p \<in> set xs" by auto
    from Cons.IH [OF this Cons.prems(2)] obtain err q where
      "readAll e xs = Inl err" "q \<in> set xs" "readFile e q = Inl err" by blast
    with Inr show ?thesis by auto
  qed
qed

lemma check_eq:
  "check e vl0 opts =
     (case targetsOf e vl0 opts of
        Inl err \<Rightarrow> ([], Inl err)
      | Inr targets \<Rightarrow>
          (case readAll e targets of
             Inl err \<Rightarrow> (map ReadFile targets, Inl err)
           | Inr fs \<Rightarrow>
               (let r = getDiagnostics e
                      \<lparr>docs = map createDocument
                                (if orDefault False (onlyTypeScript opts) then filter eligible fs else fs),
                       src_workspace = workspace opts,
                       src_onlyTemplate = orDefault False (onlyTemplate opts),
                       src_failExit = orDefault False (failExit opts)\<rparr>
                in (map ReadFile targets @ trace r, Inr r))))"
  by (simp add: check_def targetsOf_def traverse_def Let_def split: sum.splits)

lemma loop_at_throw:
  assumes pre: "list_all (passed m ot fe) pre"
    and d: "validateDoc m ot d = (evs, Inl err)"
  shows "\<exists>a'. validationLoop e m ot fe (pre @ d # post) initial = (Some err, a') \<and>
           trace a' = acquired @ concat (map (docEvents e m ot) pre) @ evs"
proof -
  from loop_passed_prefix [OF pre, of initial e "d # post"] obtain a1 where
    1: "validationLoop e m ot fe (pre @ d # post) initial = validationLoop e m ot fe (d # post) a1"
    and 2: "trace a1 = acquired @ concat (map (docEvents e m ot) pre)" by auto
  have "validationLoop e m ot fe (d # post) a1 = (Some err, emit evs a1)"
    using d by (rule loop_step_throw)
  with 1 2 show ?thesis by simp
qed

lemma loop_at_stop:
  assumes pre: "list_all (clean m ot) pre"
    and d: "validateDoc m ot d = (evs, Inr rs)" and rs: "rs \<noteq> []"
  shows "\<exists>a'. validationLoop e m ot True (pre @ d # post) initial = (None, a') \<and> hasError a' \<and>
           trace a' = acquired @ concat (map (docEvents e m ot) pre) @ docEvents e m ot d
                        @ [PrintMessage stopNotice]"
proof -
  from loop_passed_prefix [OF clean_all_passed [OF pre], of True initial e "d # post"] obtain a1 where
    1: "validationLoop e m ot True (pre @ d # post) initial = validationLoop e m ot True (d # post) a1"
    and 2: "trace a1 = acquired @ concat (map (docEvents e m ot) pre)" by auto
  have 3: "validationLoop e m ot True (d # post) a1 =
      (None, emit [PrintMessage stopNotice] (handleResults e d rs (emit evs a1)))"
    using loop_step_stop [of m ot d evs rs a1 True e post] d rs by simp
  have "docEvents e m ot d = evs @ concat (map (printResult e d) rs) @ [BarTick]"
    using d by (simp add: docEvents_def)
  with 1 2 3 rs show ?thesis by (simp add: handleResults_trace handleResults_hasError)
qed

lemma body_not_summary: "isBodyEvent ev \<Longrightarrow> \<not> isSummaryLine ev"
  by (cases ev) simp_all

lemma body_no_summary: "list_all isBodyEvent evs \<Longrightarrow> filter isSummaryLine evs = []"
  by (induction evs) (auto simp: body_not_summary)

lemma summaryLine_is_summary: "isSummaryLine (PrintMessage (summaryLine n k))"
  by (simp add: summaryLine_def)

lemma summary_tail:
  "filter isSummaryLine pre = [] \<Longrightarrow>
     length (filter isSummaryLine (pre @ [PrintMessage (summaryLine n k), ProcessExit c])) = 1"
  by (simp add: summaryLine_def)

lemma summaryLine_zero: "summaryLine 0 0 = ''Found: 0 errors in 0 file(s)''"
  by code_simp

lemma guarded_no_docs:
  "docs s = [] \<Longrightarrow> totalErrors (guarded e s initial) = 0 \<and>
     (\<forall>m. createModes e (src_workspace s) = Inr m \<longrightarrow> guarded e s initial = initial)"
  by (cases "createModes e (src_workspace s)") (simp_all add: guarded_def)

text \<open>The counter of diagnostics is the number of reports printed.\<close>

lemma printResult_reported: "length (filter isPrintError (printResult e d r)) = 1"
  by (simp add: printResult_def printLine_def Let_def filter_concat comp_def)

lemma printResults_reported:
  "length (filter isPrintError (concat (map (printResult e d) rs))) = length rs"
  by (induction rs) (simp_all add: printResult_reported)

lemma validateDoc_reported: "validateDoc m ot d = (evs, r) \<Longrightarrow> filter isPrintError evs = []"
  by (auto simp: validateDoc_def split: sum.splits option.splits if_splits)

lemma loop_reported:
  "validationLoop e m ot fe ds a = (x, a') \<Longrightarrow>
     totalErrors a = length (filter isPrintError (trace a)) \<Longrightarrow>
     totalErrors a' = length (filter isPrintError (trace a'))"
proof (induction ds arbitrary: a x a')
  case Nil
  then show ?case by simp
next
  case (Cons d ds)
  obtain evs r where v: "validateDoc m ot d = (evs, r)" by (cases "validateDoc m ot d")
  have ve: "filter isPrintError evs = []" using validateDoc_reported [OF v] .
  show ?case
  proof (cases r)
    case (Inl err)
    with Cons.prems v ve show ?thesis by auto
  next
    case (Inr rs)
    let ?a3 = "handleResults e d rs (emit evs a)"
    have i3: "totalErrors ?a3 = length (filter isPrintError (trace ?a3))"
      using Cons.prems(2) ve
      by (simp add: handleResults_trace handleResults_totalErrors printResults_reported)
    show ?thesis
    proof (cases "(hasError a \<or> rs \<noteq> []) \<and> fe")
      case True
      with Cons.prems v Inr have "a' = emit [PrintMessage stopNotice] ?a3"
        using loop_step_stop [of m ot d evs rs a fe e ds] by auto
      with i3 show ?thesis by simp
    next
      case False
      with Cons.prems v Inr have "validationLoop e m ot fe ds ?a3 = (x, a')"
        using loop_step_go [of m ot d evs rs a fe e ds] by auto
      from Cons.IH [OF this i3] show ?thesis .
    qed
  qed
qed

lemma guarded_reported:
  "totalErrors (guarded e s initial) = length (filter isPrintError (trace (guarded e s initial)))"
proof (cases "createModes e (src_workspace s)")
  case (Inl err)
  then show ?thesis by (simp add: guarded_throw_setup acquired_def)
next
  case (Inr m)
  obtain x a' where
    l: "validationLoop e m (src_onlyTemplate s) (src_failExit s) (docs s) initial = (x, a')"
    by (cases "validationLoop e m (src_onlyTemplate s) (src_failExit s) (docs s) initial")
  have i: "totalErrors initial = length (filter isPrintError (trace initial))"
    by (simp add: acquired_def)
  note r = loop_reported [OF l i]
  show ?thesis
  proof (cases x)
    case None
    with Inr l r show ?thesis by (simp add: guarded_return)
  next
    case (Some err)
    with Inr l r show ?thesis by (simp add: guarded_throw_loop)
  qed
qed

lemma getDiagnostics_exit_code:
  "(exitCode (getDiagnostics e s) = 0 \<or> exitCode (getDiagnostics e s) = 1) \<and>
   (exitCode (getDiagnostics e s) = 0 \<longleftrightarrow> \<not> hasError (getDiagnostics e s)) \<and>
   (exitCode (getDiagnostics e s) = 0 \<longleftrightarrow>
      totalErrors (getDiagnostics e s) = 0 \<and> \<not> list_ex isConsoleError (trace (getDiagnostics e s))) \<and>
   totalErrors (getDiagnostics e s) = length (filter isPrintError (trace (getDiagnostics e s))) \<and>
   (exitCode (getDiagnostics e s) = 0 \<longleftrightarrow>
      (\<exists>m. createModes e (src_workspace s) = Inr m \<and>
           list_all (clean m (src_onlyTemplate s)) (docs s))) \<and>
   last (trace (getDiagnostics e s)) = ProcessExit (exitCode (getDiagnostics e s))"
proof -
  let ?g = "guarded e s initial"
  let ?r = "getDiagnostics e s"
  have x: "exitCode ?r = (if hasError ?g then 1 else 0)" and h: "hasError ?r = hasError ?g"
    and n: "totalErrors ?r = totalErrors ?g"
    and t: "trace ?r = trace ?g @ released @ summaryEvents s (totalErrors ?g) @ [ProcessExit (exitCode ?r)]"
    by (simp_all add: getDiagnostics_eq finallyBlock_fields)
  have ce: "list_ex isConsoleError evs \<longleftrightarrow> (\<exists>err. ConsoleError err \<in> set evs)" for evs
    by (induction evs) (auto elim: isConsoleError.elims)
  have c: "list_ex isConsoleError (trace ?r) \<longleftrightarrow> (\<exists>err. ConsoleError err \<in> set (trace ?g))"
    unfolding ce t by (auto simp: released_def summaryEvents_def)
  have 1: "exitCode ?r = 0 \<or> exitCode ?r = 1" using x by simp
  have 2: "exitCode ?r = 0 \<longleftrightarrow> \<not> hasError ?r" using x h by simp
  have 3: "exitCode ?r = 0 \<longleftrightarrow> totalErrors ?r = 0 \<and> \<not> list_ex isConsoleError (trace ?r)"
    using 2 h n c guarded_hasError_why [of e s] by auto
  have 4: "exitCode ?r = 0 \<longleftrightarrow>
        (\<exists>m. createModes e (src_workspace s) = Inr m \<and>
             list_all (clean m (src_onlyTemplate s)) (docs s))"
    using 2 h guarded_hasError_iff [of e s] by simp
  have 5: "last (trace ?r) = ProcessExit (exitCode ?r)" by (subst t) simp
  have 6: "totalErrors ?r = length (filter isPrintError (trace ?r))"
    unfolding n t using guarded_reported [of e s]
    by (simp add: released_def summaryEvents_def)
  from 1 2 3 4 5 6 show ?thesis by blast
qed

lemma check_cases:
  "check e vl0 opts =
     (case targetsOf e vl0 opts of
        Inl err \<Rightarrow> ([], Inl err)
      | Inr targets \<Rightarrow>
          (case readAll e targets of
             Inl err \<Rightarrow> (map ReadFile targets, Inl err)
           | Inr fs \<Rightarrow>
               (map ReadFile targets @ trace (getDiagnostics e (sourceOf opts (documentsOf opts fs))),
                Inr (getDiagnostics e (sourceOf opts (documentsOf opts fs))))))"
  by (simp add: check_eq sourceOf_def documentsOf_def Let_def split: sum.splits)

section \<open>Lemmas about traverse\<close>

lemma readAll_readable:
  "list_all (readable e) ps \<Longrightarrow>
     readAll e ps = Inr (map (\<lambda>p. \<lparr>absFilePath = p, fileExt = extractTargetFileExtension e p,
                                   src = projr (readFile e p)\<rparr>) ps)"
  by (induction ps) (auto simp: readable_def split: sum.splits)

lemma createDocument_loaded:
  "createDocument \<lparr>absFilePath = p, fileExt = extractTargetFileExtension e p,
                   src = projr (readFile e p)\<rparr> = loadedDocument e p"
  by (simp add: createDocument_def loadedDocument_def)

lemma literals_compile:
  "compile hasScriptTagPattern \<noteq> Inl RegExpSyntaxError \<and> compile hasScriptTagPattern \<noteq> Inl RegExpNotModelled"
  "compile isTsPattern \<noteq> Inl RegExpSyntaxError \<and> compile isTsPattern \<noteq> Inl RegExpNotModelled"
  "compile isImportOtherTsPattern \<noteq> Inl RegExpSyntaxError \<and> compile isImportOtherTsPattern \<noteq> Inl RegExpNotModelled"
  by code_simp+

section \<open>The claims\<close>

subsection \<open>C1: the early exit\<close>

text \<open>
  C1, as amended. For every run of \<open>getDiagnostics\<close> with \<open>failExit\<close> set in which the
  producers could be constructed: if the documents before document \<open>d\<close> are clean and
  \<open>d\<close> yields at least one diagnostic, then the trace consists of the acquisition of the
  caches, the events of the documents up to and including \<open>d\<close>, the stop notice, the
  release of the caches and the exit with code 1. No document after \<open>d\<close> is validated
  (the trace does not depend on them), and no summary line is printed. (All selected
  files have been read by \<open>traverse\<close> before \<open>getDiagnostics\<close> starts.)
\<close>

theorem failExit_stops_validation:
  assumes "src_failExit s"
    and "createModes e (src_workspace s) = Inr m"
    and "docs s = pre @ d # post"
    and "list_all (clean m (src_onlyTemplate s)) pre"
    and "snd (validateDoc m (src_onlyTemplate s) d) = Inr rs" and "rs \<noteq> []"
  shows "trace (getDiagnostics e s) =
           acquired @ concat (map (docEvents e m (src_onlyTemplate s)) pre)
             @ docEvents e m (src_onlyTemplate s) d
             @ [PrintMessage stopNotice] @ released @ [ProcessExit 1]
         \<and> exitCode (getDiagnostics e s) = 1"
proof -
  obtain evs where d: "validateDoc m (src_onlyTemplate s) d = (evs, Inr rs)"
    using assms(5) by (cases "validateDoc m (src_onlyTemplate s) d") simp
  from loop_at_stop [OF assms(4) d assms(6), of e post] obtain a' where
    l: "validationLoop e m (src_onlyTemplate s) True (docs s) initial = (None, a')"
    and h: "hasError a'"
    and t: "trace a' = acquired @ concat (map (docEvents e m (src_onlyTemplate s)) pre)
              @ docEvents e m (src_onlyTemplate s) d @ [PrintMessage stopNotice]"
    using assms(3) by auto
  have g: "guarded e s initial = a'"
    using guarded_return [OF assms(2), of initial a'] l assms(1) by simp
  show ?thesis
    using h t assms(1) by (simp add: getDiagnostics_eq g finallyBlock_fields summaryEvents_def)
qed

text \<open>
  The theorem at a run over three documents, the second with a diagnostic: the third,
  on which the template producer would throw, is never handed to a producer.
\<close>

theorem failExit_stops_validation_witness:
  "trace (getDiagnostics (exampleEnv [])
      (exampleSource [exampleDoc ''/w/a.vue'' ''ok'', exampleDoc ''/w/b.vue'' ''{{ msg }}'',
                      exampleDoc ''/w/c.vue'' ''crash''] True)) =
     [GetLanguageModelCache DocumentRegions, GetLanguageModelCache ScriptRegionDocuments,
      DoValidation VueMode (exampleDoc ''/w/a.vue'' ''ok''),
      DoValidation ScriptMode (exampleDoc ''/w/a.vue'' ''ok''), BarTick,
      DoValidation VueMode (exampleDoc ''/w/b.vue'' ''{{ msg }}''),
      DoValidation ScriptMode (exampleDoc ''/w/b.vue'' ''{{ msg }}''),
      PrintError ''Error in file:///w/b.vue'',
      PrintMessage ''0:3 Property msg does not exist'',
      PrintLog ''0 | {{ msg }}'', PrintLog ''   ^^^'', BarTick,
      PrintMessage stopNotice,
      Dispose DocumentRegions, Dispose ScriptRegionDocuments, ProcessExit 1]"
proof -
  let ?a = "exampleDoc ''/w/a.vue'' ''ok''"
  let ?b = "exampleDoc ''/w/b.vue'' ''{{ msg }}''"
  let ?c = "exampleDoc ''/w/c.vue'' ''crash''"
  let ?s = "exampleSource [?a, ?b, ?c] True"
  let ?e = "exampleEnv []"
  have 1: "src_failExit ?s" by (simp add: exampleSource_def)
  have 2: "createModes ?e (src_workspace ?s) = Inr exampleModes" by (simp add: exampleEnv_def)
  have 3: "docs ?s = [?a] @ ?b # [?c]" by (simp add: exampleSource_def)
  have 4: "list_all (clean exampleModes (src_onlyTemplate ?s)) [?a]" by code_simp
  have 5: "snd (validateDoc exampleModes (src_onlyTemplate ?s) ?b) = Inr [exampleDiagnostic]"
    by code_simp
  have 6: "[exampleDiagnostic] \<noteq> []" by simp
  have 7: "acquired @ concat (map (docEvents ?e exampleModes (src_onlyTemplate ?s)) [?a])
             @ docEvents ?e exampleModes (src_onlyTemplate ?s) ?b
             @ [PrintMessage stopNotice] @ released @ [ProcessExit 1] =
     [GetLanguageModelCache DocumentRegions, GetLanguageModelCache ScriptRegionDocuments,
      DoValidation VueMode ?a, DoValidation ScriptMode ?a, BarTick,
      DoValidation VueMode ?b, DoValidation ScriptMode ?b,
      PrintError ''Error in file:///w/b.vue'',
      PrintMessage ''0:3 Property msg does not exist'',
      PrintLog ''0 | {{ msg }}'', PrintLog ''   ^^^'', BarTick,
      PrintMessage stopNotice,
      Dispose DocumentRegions, Dispose ScriptRegionDocuments, ProcessExit 1]"
    by code_simp
  from failExit_stops_validation [OF 1 2 3 4 5 6] 7 show ?thesis by simp
qed

text \<open>
  C1 as stated fails on "loaded". With \<open>failExit\<close> set and two files of which the first
  yields a diagnostic, \<open>traverse\<close> has read both files and created both documents before
  the first validation: the second file is read although it comes after the document
  that stops the run.
\<close>

theorem failExit_later_document_is_read:
  "failExit (exampleOptions\<lparr>failExit := Some True\<rparr>) = Some True \<and>
   snd (validateDoc exampleModes False (exampleDoc ''/w/a.vue'' ''{{ msg }}'')) = Inr [exampleDiagnostic] \<and>
   snd (traverse (exampleEnv twoFiles) [''vue''] ''/w'' False [] None) =
     Inr [exampleDoc ''/w/a.vue'' ''{{ msg }}'', exampleDoc ''/w/b.vue'' ''ok''] \<and>
   fst (check (exampleEnv twoFiles) [''vue''] (exampleOptions\<lparr>failExit := Some True\<rparr>)) =
   [ReadFile ''/w/a.vue'', ReadFile ''/w/b.vue'',
    GetLanguageModelCache DocumentRegions, GetLanguageModelCache ScriptRegionDocuments,
    DoValidation VueMode (exampleDoc ''/w/a.vue'' ''{{ msg }}''),
    DoValidation ScriptMode (exampleDoc ''/w/a.vue'' ''{{ msg }}''),
    PrintError ''Error in file:///w/a.vue'',
    PrintMessage ''0:3 Property msg does not exist'',
    PrintLog ''0 | {{ msg }}'', PrintLog ''   ^^^'', BarTick,
    PrintMessage stopNotice,
    Dispose DocumentRegions, Dispose ScriptRegionDocuments, ProcessExit 1]"
  by code_simp

subsection \<open>C2: an explicit list of files\<close>

text \<open>
  C2, as amended. For every run in which the explicit list is not empty: the directory
  scan is bypassed (the result of \<open>traverse\<close> depends neither on \<open>globSync\<close> nor on the
  root, the glob pattern or \<open>path.join\<close>); when no \<open>excludeDir\<close> is given, strict-only
  mode is off and every listed file can be read, the documents are exactly those of the
  list, in its order; when \<open>excludeDir\<close> is given, the exclusion filter is applied to the
  explicit list as it is to a scan.
\<close>

theorem explicit_files_bypass_scan:
  assumes "changedFiles \<noteq> []"
  shows "traverse (e\<lparr>globSync := g, path_join := j\<rparr>) vl' root' strict changedFiles ex =
           traverse e vl root strict changedFiles ex
       \<and> (ex = None \<and> \<not> strict \<and> list_all (readable e) changedFiles \<longrightarrow>
            traverse e vl root strict changedFiles ex =
              (map ReadFile changedFiles, Inr (map (loadedDocument e) changedFiles)))
       \<and> (\<forall>dirs. ex = Some dirs \<longrightarrow>
            selectTargets e vl root strict changedFiles ex =
              filterTargets (exclusionPattern (map (path_resolve e) dirs)) changedFiles)"
proof (intro conjI impI allI)
  have r: "readAll (e\<lparr>globSync := g, path_join := j\<rparr>) ps = readAll e ps" for ps
    by (induction ps) (auto split: sum.splits)
  have s: "selectTargets (e\<lparr>globSync := g, path_join := j\<rparr>) vl' root' strict changedFiles ex =
           selectTargets e vl root strict changedFiles ex"
    using assms by (simp add: selectTargets_def cong: map_cong split: option.splits)
  show "traverse (e\<lparr>globSync := g, path_join := j\<rparr>) vl' root' strict changedFiles ex =
           traverse e vl root strict changedFiles ex"
    by (simp add: traverse_def s r split: sum.splits)
next
  assume a: "ex = None \<and> \<not> strict \<and> list_all (readable e) changedFiles"
  then have "selectTargets e vl root strict changedFiles ex = Inr changedFiles"
    using assms by (simp add: selectTargets_def)
  moreover have "readAll e changedFiles =
     Inr (map (\<lambda>p. \<lparr>absFilePath = p, fileExt = extractTargetFileExtension e p,
                                   src = projr (readFile e p)\<rparr>) changedFiles)"
    using a by (simp add: readAll_readable)
  ultimately show "traverse e vl root strict changedFiles ex =
              (map ReadFile changedFiles, Inr (map (loadedDocument e) changedFiles))"
    using a by (simp add: traverse_def createDocument_loaded comp_def)
next
  fix dirs assume "ex = Some dirs"
  then show "selectTargets e vl root strict changedFiles ex =
              filterTargets (exclusionPattern (map (path_resolve e) dirs)) changedFiles"
    using assms by (simp add: selectTargets_def)
qed

text \<open>The theorem at an explicit list of one file, without exclusion.\<close>

theorem explicit_files_bypass_scan_witness:
  "[''/w/src/a.vue''] \<noteq> [] \<and>
   traverse (exampleEnv srcFile) [''vue''] ''/w'' False [''/w/src/a.vue''] None =
     ([ReadFile ''/w/src/a.vue''], Inr [exampleDoc ''/w/src/a.vue'' ''ok''])"
proof -
  have 1: "[''/w/src/a.vue''] \<noteq> ([] :: string list)" by simp
  have 2: "list_all (readable (exampleEnv srcFile)) [''/w/src/a.vue'']" by code_simp
  have 3: "loadedDocument (exampleEnv srcFile) ''/w/src/a.vue'' = exampleDoc ''/w/src/a.vue'' ''ok''"
    by code_simp
  from explicit_files_bypass_scan [OF 1, where e = "exampleEnv srcFile" and strict = False
      and ex = None and vl = "[''vue'']" and root = "''/w''"] 2 3
  show ?thesis by simp
qed

text \<open>
  C2 as stated fails on the exclusion: the explicit file \<open>/w/src/a.vue\<close> with the
  exclusion entry \<open>src\<close> (resolved to \<open>/w/src\<close>) gives no document at all; the file is
  not even read, and the run reports zero files.
\<close>

theorem explicit_file_is_excluded:
  "[''/w/src/a.vue''] \<noteq> [] \<and>
   traverse (exampleEnv srcFile) [''vue''] ''/w'' False [''/w/src/a.vue''] (Some [''src'']) = ([], Inr []) \<and>
   snd (check (exampleEnv srcFile) [''vue'']
          (exampleOptions\<lparr>files := Some [''/w/src/a.vue''], excludeDir := Some (OneDir ''src'')\<rparr>)) =
     Inr \<lparr>hasError = False, totalErrors = 0,
          trace = [GetLanguageModelCache DocumentRegions, GetLanguageModelCache ScriptRegionDocuments,
                   Dispose DocumentRegions, Dispose ScriptRegionDocuments,
                   PrintMessage ''Found: 0 errors in 0 file(s)'', ProcessExit 0],
          exitCode = 0\<rparr>"
  by code_simp

subsection \<open>C3: the exit code\<close>

text \<open>
  C3, as amended. For every call of \<open>check\<close>: either the selection or a read throws,
  and then \<open>check\<close> ends with that exception after the reads at most and no exit code
  is computed; or the run reaches \<open>getDiagnostics\<close> and ends in the exit, and then the
  exit code is 0 or 1, and it is 0 exactly when \<open>hasError\<close> is false at the end; that is,
  exactly when no diagnostic was reported on the processed documents (the counter, which
  is the number of reports printed, is zero) and no exception of the producers was
  caught and logged; that is, exactly when the producers could be constructed and both
  of them return without a diagnostic on every document. The exit is the last event.
\<close>

theorem exit_code_of_every_run:
  "(case check e vl0 opts of
      (evs, Inl err) \<Rightarrow>
        \<not> list_ex isExit evs \<and>
        (targetsOf e vl0 opts = Inl err \<or>
         (\<exists>targets. targetsOf e vl0 opts = Inr targets \<and> readAll e targets = Inl err))
    | (evs, Inr r) \<Rightarrow>
        (\<exists>targets fs. targetsOf e vl0 opts = Inr targets \<and> readAll e targets = Inr fs \<and>
           r = getDiagnostics e (sourceOf opts (documentsOf opts fs)) \<and>
           (exitCode r = 0 \<longleftrightarrow>
              (\<exists>m. createModes e (workspace opts) = Inr m \<and>
                 list_all (clean m (orDefault False (onlyTemplate opts))) (documentsOf opts fs)))) \<and>
        (exitCode r = 0 \<or> exitCode r = 1) \<and>
        (exitCode r = 0 \<longleftrightarrow> \<not> hasError r) \<and>
        (exitCode r = 0 \<longleftrightarrow> totalErrors r = 0 \<and> \<not> list_ex isConsoleError (trace r)) \<and>
        totalErrors r = length (filter isPrintError (trace r)) \<and>
        last evs = ProcessExit (exitCode r))"
proof (cases "targetsOf e vl0 opts")
  case (Inl err)
  then show ?thesis by (simp add: check_cases)
next
  case (Inr targets)
  show ?thesis
  proof (cases "readAll e targets")
    case (Inl err)
    have "\<not> list_ex isExit (map ReadFile targets)" by (induction targets) simp_all
    with Inr Inl show ?thesis by (simp add: check_cases)
  next
    case fs: (Inr fs)
    let ?s = "sourceOf opts (documentsOf opts fs)"
    let ?r = "getDiagnostics e ?s"
    note g = getDiagnostics_exit_code [of e ?s]
    have s: "src_workspace ?s = workspace opts" "src_onlyTemplate ?s = orDefault False (onlyTemplate opts)"
      "docs ?s = documentsOf opts fs" by (simp_all add: sourceOf_def)
    have c: "check e vl0 opts = (map ReadFile targets @ trace ?r, Inr ?r)"
      using Inr fs by (simp add: check_cases)
    have ne: "trace ?r \<noteq> []" by (simp add: getDiagnostics_eq finallyBlock_fields)
    have l: "last (map ReadFile targets @ trace ?r) = ProcessExit (exitCode ?r)"
      using g ne by simp
    have i: "exitCode ?r = 0 \<longleftrightarrow>
              (\<exists>m. createModes e (workspace opts) = Inr m \<and>
                 list_all (clean m (orDefault False (onlyTemplate opts))) (documentsOf opts fs))"
      using g unfolding s by blast
    have x: "\<exists>targets' fs'. targetsOf e vl0 opts = Inr targets' \<and> readAll e targets' = Inr fs' \<and>
           ?r = getDiagnostics e (sourceOf opts (documentsOf opts fs')) \<and>
           (exitCode ?r = 0 \<longleftrightarrow>
              (\<exists>m. createModes e (workspace opts) = Inr m \<and>
                 list_all (clean m (orDefault False (onlyTemplate opts))) (documentsOf opts fs')))"
      by (intro exI [of _ targets] exI [of _ fs] conjI Inr fs refl i)
    have g1: "exitCode ?r = 0 \<or> exitCode ?r = 1" using g by blast
    have g2: "exitCode ?r = 0 \<longleftrightarrow> \<not> hasError ?r" using g by blast
    have g3: "exitCode ?r = 0 \<longleftrightarrow> totalErrors ?r = 0 \<and> \<not> list_ex isConsoleError (trace ?r)"
      using g by blast
    have g4: "totalErrors ?r = length (filter isPrintError (trace ?r))" using g by blast
    show ?thesis
      unfolding c prod.case sum.case
      by (intro conjI x g1 g2 g3 g4 l)
  qed
qed

text \<open>
  The theorem at three runs: one file without findings (exit code 0), two files of
  which one has an unresolved template expression (exit code 1), and an explicit file
  that does not exist (the read failure leaves \<open>check\<close>, nothing exits).
\<close>

theorem exit_code_of_every_run_witness:
  "(\<exists>evs r. check (exampleEnv srcFile) [''vue''] exampleOptions = (evs, Inr r) \<and> exitCode r = 0) \<and>
   (\<exists>evs r. check (exampleEnv twoFiles) [''vue''] exampleOptions = (evs, Inr r) \<and> exitCode r = 1) \<and>
   (\<exists>evs err. check (exampleEnv srcFile) [''vue''] (exampleOptions\<lparr>files := Some [''/w/src/b.vue'']\<rparr>) =
        (evs, Inl err) \<and> \<not> list_ex isExit evs)"
proof (intro conjI)
  let ?e = "exampleEnv srcFile"
  let ?fs = "[\<lparr>absFilePath = ''/w/src/a.vue'', fileExt = Some ''vue'', src = ''ok''\<rparr>]"
  have 1: "targetsOf ?e [''vue''] exampleOptions = Inr [''/w/src/a.vue'']" by code_simp
  have 2: "readAll ?e [''/w/src/a.vue''] = Inr ?fs" by code_simp
  have 3: "createModes ?e (workspace exampleOptions) = Inr exampleModes" by (simp add: exampleEnv_def)
  have 4: "list_all (clean exampleModes (orDefault False (onlyTemplate exampleOptions)))
             (documentsOf exampleOptions ?fs)" by code_simp
  obtain evs x where c: "check ?e [''vue''] exampleOptions = (evs, x)"
    by (cases "check ?e [''vue''] exampleOptions")
  note t = exit_code_of_every_run [of ?e "[''vue'']" exampleOptions, unfolded c prod.case]
  show "\<exists>evs r. check ?e [''vue''] exampleOptions = (evs, Inr r) \<and> exitCode r = 0"
  proof (cases x)
    case (Inl err)
    with t 1 2 show ?thesis by auto
  next
    case (Inr r)
    with t obtain targets fs where "targetsOf ?e [''vue''] exampleOptions = Inr targets"
      "readAll ?e targets = Inr fs"
      and i: "exitCode r = 0 \<longleftrightarrow>
              (\<exists>m. createModes ?e (workspace exampleOptions) = Inr m \<and>
                 list_all (clean m (orDefault False (onlyTemplate exampleOptions)))
                   (documentsOf exampleOptions fs))" by auto
    with 1 2 have "fs = ?fs" by simp
    with i 3 4 have "exitCode r = 0" by blast
    with c Inr show ?thesis by blast
  qed
next
  let ?e = "exampleEnv twoFiles"
  let ?fs = "[\<lparr>absFilePath = ''/w/a.vue'', fileExt = Some ''vue'', src = ''{{ msg }}''\<rparr>,
              \<lparr>absFilePath = ''/w/b.vue'', fileExt = Some ''vue'', src = ''ok''\<rparr>]"
  have 1: "targetsOf ?e [''vue''] exampleOptions = Inr [''/w/a.vue'', ''/w/b.vue'']" by code_simp
  have 2: "readAll ?e [''/w/a.vue'', ''/w/b.vue''] = Inr ?fs" by code_simp
  have 3: "createModes ?e (workspace exampleOptions) = Inr exampleModes" by (simp add: exampleEnv_def)
  have 4: "\<not> list_all (clean exampleModes (orDefault False (onlyTemplate exampleOptions)))
             (documentsOf exampleOptions ?fs)" by code_simp
  obtain evs x where c: "check ?e [''vue''] exampleOptions = (evs, x)"
    by (cases "check ?e [''vue''] exampleOptions")
  note t = exit_code_of_every_run [of ?e "[''vue'']" exampleOptions, unfolded c prod.case]
  show "\<exists>evs r. check ?e [''vue''] exampleOptions = (evs, Inr r) \<and> exitCode r = 1"
  proof (cases x)
    case (Inl err)
    with t 1 2 show ?thesis by auto
  next
    case (Inr r)
    with t obtain targets fs where "targetsOf ?e [''vue''] exampleOptions = Inr targets"
      "readAll ?e targets = Inr fs"
      and i: "exitCode r = 0 \<longleftrightarrow>
              (\<exists>m. createModes ?e (workspace exampleOptions) = Inr m \<and>
                 list_all (clean m (orDefault False (onlyTemplate exampleOptions)))
                   (documentsOf exampleOptions fs))"
      and j: "exitCode r = 0 \<or> exitCode r = 1" by auto
    with 1 2 have "fs = ?fs" by simp
    with i 3 4 have "exitCode r \<noteq> 0" by auto
    with j have "exitCode r = 1" by blast
    with c Inr show ?thesis by blast
  qed
next
  let ?e = "exampleEnv srcFile"
  let ?o = "exampleOptions\<lparr>files := Some [''/w/src/b.vue'']\<rparr>"
  have 1: "targetsOf ?e [''vue''] ?o = Inr [''/w/src/b.vue'']" by code_simp
  have 2: "readAll ?e [''/w/src/b.vue''] = Inl (FileReadError ''/w/src/b.vue'')" by code_simp
  obtain evs x where c: "check ?e [''vue''] ?o = (evs, x)"
    by (cases "check ?e [''vue''] ?o")
  note t = exit_code_of_every_run [of ?e "[''vue'']" ?o, unfolded c prod.case]
  show "\<exists>evs err. check ?e [''vue''] ?o = (evs, Inl err) \<and> \<not> list_ex isExit evs"
  proof (cases x)
    case (Inl err)
    with t c show ?thesis by auto
  next
    case (Inr r)
    with t obtain targets fs where "targetsOf ?e [''vue''] ?o = Inr targets"
      "readAll ?e targets = Inr fs" by auto
    with 1 2 show ?thesis by simp
  qed
qed

text \<open>
  C3 as stated fails on both sides. With one readable file without findings and a
  workspace for which the construction of the producers throws, no diagnostic is
  produced and no unguarded exception occurs (the exception is caught, the run ends in
  the exit), yet the exit code is 1. And with an explicit file that cannot be read, the
  exception leaves \<open>check\<close> and there is no exit code at all, neither 0 nor 1.
\<close>

theorem guarded_exception_exit_one:
  "check brokenProjectEnv [''vue''] exampleOptions =
     ([ReadFile ''/w/src/a.vue'',
       GetLanguageModelCache DocumentRegions, GetLanguageModelCache ScriptRegionDocuments,
       ConsoleError (Thrown ''no project''),
       Dispose DocumentRegions, Dispose ScriptRegionDocuments,
       PrintMessage ''Found: 0 errors in 1 file(s)'', ProcessExit 1],
      Inr \<lparr>hasError = True, totalErrors = 0,
           trace = [GetLanguageModelCache DocumentRegions, GetLanguageModelCache ScriptRegionDocuments,
                    ConsoleError (Thrown ''no project''),
                    Dispose DocumentRegions, Dispose ScriptRegionDocuments,
                    PrintMessage ''Found: 0 errors in 1 file(s)'', ProcessExit 1],
           exitCode = 1\<rparr>) \<and>
   check (exampleEnv srcFile) [''vue''] (exampleOptions\<lparr>files := Some [''/w/src/b.vue'']\<rparr>) =
     ([ReadFile ''/w/src/b.vue''], Inl (FileReadError ''/w/src/b.vue''))"
  by code_simp


subsection \<open>C4: eligibility in strict-only mode\<close>

text \<open>
  C4. For every file considered in strict-only mode: a file whose extension is not \<open>vue\<close>
  is eligible; a \<open>vue\<close> file without script marker (no \<open><script\<close> followed by \<open>>\<close> on
  one line) is eligible; a file whose script tag names the language \<open>ts\<close> or \<open>tsx\<close> is
  eligible; a file whose script tag has a \<open>src\<close> attribute is eligible; any other \<open>vue\<close>
  file is not eligible. These four conditions are all there is to eligibility, and the
  three textual conditions are exactly what the three patterns of the source test. The
  documents that \<open>traverse\<close> creates in strict-only mode are those of the eligible files
  among the files read, in their order: a file that is not eligible is removed before
  the documents are created.
\<close>

theorem strict_only_eligibility:
  "(fileExt f \<noteq> Some ''vue'' \<longrightarrow> eligible f) \<and>
   (\<not> scriptMarker (src f) \<longrightarrow> eligible f) \<and>
   (strictLang (src f) \<longrightarrow> eligible f) \<and>
   (externalSrc (src f) \<longrightarrow> eligible f) \<and>
   (fileExt f = Some ''vue'' \<and> scriptMarker (src f) \<and> \<not> strictLang (src f) \<and> \<not> externalSrc (src f)
      \<longrightarrow> \<not> eligible f) \<and>
   (eligible f \<longleftrightarrow>
      fileExt f \<noteq> Some ''vue'' \<or> \<not> scriptMarker (src f) \<or> strictLang (src f) \<or> externalSrc (src f)) \<and>
   (hasScriptTag (src f) \<longleftrightarrow> scriptMarker (src f)) \<and>
   (isTs (src f) \<longleftrightarrow> strictLang (src f)) \<and>
   (isImportOtherTs (src f) \<longleftrightarrow> externalSrc (src f)) \<and>
   (selectTargets e vl root True changedFiles ex = Inr targets \<and> readAll e targets = Inr fs \<longrightarrow>
      traverse e vl root True changedFiles ex =
        (map ReadFile targets, Inr (map createDocument (filter eligible fs))))"
proof -
  have e: "eligible f \<longleftrightarrow>
      fileExt f \<noteq> Some ''vue'' \<or> \<not> scriptMarker (src f) \<or> strictLang (src f) \<or> externalSrc (src f)"
    unfolding eligible_def hasScriptTag_iff isTs_iff isImportOtherTs_iff by auto
  have t: "selectTargets e vl root True changedFiles ex = Inr targets \<and> readAll e targets = Inr fs \<longrightarrow>
      traverse e vl root True changedFiles ex =
        (map ReadFile targets, Inr (map createDocument (filter eligible fs)))"
    by (simp add: traverse_def)
  from e t show ?thesis
    unfolding hasScriptTag_iff isTs_iff isImportOtherTs_iff by blast
qed

text \<open>
  The theorem at six files, one for each case: the script file, the component without
  script section, the two components with a strict script and the component with an
  external script are kept; the component with a plain inline script is removed.
\<close>

theorem strict_only_eligibility_witness:
  "map uri (projr (snd (traverse (exampleEnv strictFiles) [''ts'', ''tsx'', ''vue''] ''/w'' True [] None))) =
     [''file:///w/a.ts'', ''file:///w/b.vue'', ''file:///w/c.vue'', ''file:///w/d.vue'', ''file:///w/e.vue'']"
proof -
  let ?e = "exampleEnv strictFiles"
  let ?fs = "map (\<lambda>(p, s). \<lparr>absFilePath = p, fileExt = extensionOf p, src = s\<rparr>) strictFiles"
  have 1: "selectTargets ?e [''ts'', ''tsx'', ''vue''] ''/w'' True [] None = Inr (map fst strictFiles)"
    by code_simp
  have 2: "readAll ?e (map fst strictFiles) = Inr ?fs"
    by code_simp
  have 3: "map uri (map createDocument (filter eligible ?fs)) =
     [''file:///w/a.ts'', ''file:///w/b.vue'', ''file:///w/c.vue'', ''file:///w/d.vue'', ''file:///w/e.vue'']"
    by code_simp
  from strict_only_eligibility [where e = ?e and vl = "[''ts'', ''tsx'', ''vue'']" and root = "''/w''"
      and changedFiles = "[]" and ex = None and targets = "map fst strictFiles" and fs = ?fs] 1 2
  have "traverse ?e [''ts'', ''tsx'', ''vue''] ''/w'' True [] None =
        (map ReadFile (map fst strictFiles), Inr (map createDocument (filter eligible ?fs)))" by blast
  with 3 show ?thesis by simp
qed

subsection \<open>C5: exclusion by prefix\<close>

text \<open>
  C5 at an input where the code departs from it. The exclusion entry \<open>/w/a+b\<close> is an
  absolute path and resolves to itself; the scanned file \<open>/w/a+b/x.vue\<close> begins with it;
  yet the file is kept, read and turned into a document, because the entry is read as
  the pattern "\<open>/w/\<close>, one or more \<open>a\<close>, then \<open>b\<close>".
\<close>

theorem exclusion_misses_prefixed_path:
  "path_resolve (exampleEnv [(''/w/a+b/x.vue'', ''ok'')]) ''/w/a+b'' = ''/w/a+b'' \<and>
   prefix ''/w/a+b'' ''/w/a+b/x.vue'' \<and>
   traverse (exampleEnv [(''/w/a+b/x.vue'', ''ok'')]) [''vue''] ''/w'' False [] (Some [''/w/a+b'']) =
     ([ReadFile ''/w/a+b/x.vue''], Inr [exampleDoc ''/w/a+b/x.vue'' ''ok''])"
  by code_simp

text \<open>
  On plain entries the filter is the prefix test the claim describes, on the string and
  not on path segments (\<open>selectTargets_exclusion\<close> above, for candidates without line
  break): the entry \<open>src/foo\<close> removes the files under \<open>/w/src/foo\<close> and under
  \<open>/w/src/foobar\<close>, and keeps the one under \<open>/w/src/fo\<close>.
\<close>

lemma exclusion_is_by_prefix_example:
  "traverse (exampleEnv [(''/w/src/foobar/x.vue'', ''ok''), (''/w/src/foo/y.vue'', ''ok''),
                         (''/w/src/fo/z.vue'', ''ok'')]) [''vue''] ''/w'' False [] (Some [''src/foo'']) =
     ([ReadFile ''/w/src/fo/z.vue''], Inr [exampleDoc ''/w/src/fo/z.vue'' ''ok''])"
  by code_simp

subsection \<open>C6: template diagnostics, then script diagnostics\<close>

text \<open>
  C6. For every document the loop handles: the list that lines 126 to 131 compute is
  the list of the specification (template diagnostics, followed by the script
  diagnostics, which are empty when \<open>onlyTemplate\<close> is set or the script producer has no
  \<open>doValidation\<close>); the template producer is the first call made, whatever the options;
  the script producer is called exactly when the template producer returned,
  \<open>onlyTemplate\<close> is not set and the script producer has a \<open>doValidation\<close>; and the
  diagnostics are printed in this order, all template diagnostics before all script
  diagnostics.
\<close>

theorem template_then_script:
  "snd (validateDoc m onlyTpl doc) = specDiagnostics m onlyTpl doc \<and>
   (\<exists>rest. fst (validateDoc m onlyTpl doc) = DoValidation VueMode doc # rest) \<and>
   (DoValidation ScriptMode doc \<in> set (fst (validateDoc m onlyTpl doc)) \<longleftrightarrow>
      (\<exists>tpl. vueMode_doValidation m doc = Inr tpl) \<and> \<not> onlyTpl \<and> scriptMode_doValidation m \<noteq> None) \<and>
   (\<forall>tpl scr. vueMode_doValidation m doc = Inr tpl \<and> specScriptDiagnostics m onlyTpl doc = Inr scr \<longrightarrow>
      snd (validateDoc m onlyTpl doc) = Inr (tpl @ scr) \<and>
      trace (handleResults e doc (tpl @ scr) a) =
        trace a @ concat (map (printResult e doc) tpl) @ concat (map (printResult e doc) scr) @ [BarTick])"
  by (auto simp add: validateDoc_def specDiagnostics_def specScriptDiagnostics_def handleResults_trace
      split: sum.splits option.splits)

text \<open>The theorem at a document with one template diagnostic and no script diagnostic.\<close>

theorem template_then_script_witness:
  "snd (validateDoc exampleModes False (exampleDoc ''/w/a.vue'' ''{{ msg }}'')) = Inr ([exampleDiagnostic] @ [])"
proof -
  let ?d = "exampleDoc ''/w/a.vue'' ''{{ msg }}''"
  have "vueMode_doValidation exampleModes ?d = Inr [exampleDiagnostic]"
    by (simp add: exampleModes_def exampleDoc_def)
  moreover have "specScriptDiagnostics exampleModes False ?d = Inr []"
    by (simp add: specScriptDiagnostics_def exampleModes_def)
  ultimately show ?thesis
    using template_then_script [of exampleModes False ?d undefined undefined] by blast
qed

subsection \<open>C7: the two caches are released once on every path\<close>

text \<open>
  C7. For every run of \<open>getDiagnostics\<close>, whatever the producers do (return, stop early
  under \<open>failExit\<close>, or throw), the trace starts with the acquisition of the two caches,
  goes on with events of the guarded block, then releases the first cache and the
  second cache, and ends with the optional summary line and the exit. Each cache is
  acquired exactly once and released exactly once, and the release comes after the
  acquisition and after everything the loop did.
\<close>

theorem caches_released_exactly_once:
  "\<exists>mid. trace (getDiagnostics e s) =
            acquired @ mid @ released @ summaryEvents s (totalErrors (getDiagnostics e s))
              @ [ProcessExit (exitCode (getDiagnostics e s))]
          \<and> list_all isBodyEvent mid
          \<and> count_list (trace (getDiagnostics e s)) (Dispose DocumentRegions) = 1
          \<and> count_list (trace (getDiagnostics e s)) (Dispose ScriptRegionDocuments) = 1
          \<and> count_list (trace (getDiagnostics e s)) (GetLanguageModelCache DocumentRegions) = 1
          \<and> count_list (trace (getDiagnostics e s)) (GetLanguageModelCache ScriptRegionDocuments) = 1"
proof -
  obtain mid where g: "trace (guarded e s initial) = acquired @ mid" and b: "list_all isBodyEvent mid"
    using guarded_trace by blast
  let ?r = "getDiagnostics e s"
  have t: "trace ?r = acquired @ mid @ released @ summaryEvents s (totalErrors ?r) @ [ProcessExit (exitCode ?r)]"
    using g by (simp add: getDiagnostics_eq finallyBlock_fields)
  have c: "\<And>c. count_list mid (Dispose c) = 0" "\<And>c. count_list mid (GetLanguageModelCache c) = 0"
    using b by (simp_all add: count_none [where P = isBodyEvent])
  have "count_list (trace ?r) (Dispose DocumentRegions) = 1"
    "count_list (trace ?r) (Dispose ScriptRegionDocuments) = 1"
    "count_list (trace ?r) (GetLanguageModelCache DocumentRegions) = 1"
    "count_list (trace ?r) (GetLanguageModelCache ScriptRegionDocuments) = 1"
    unfolding t using c
    by (simp_all add: acquired_def released_def summaryEvents_def)
  with t b show ?thesis by blast
qed

text \<open>The theorem at a run that throws in the loop after one reported document.\<close>

theorem caches_released_exactly_once_witness:
  "count_list (trace (getDiagnostics (exampleEnv [])
      (exampleSource [exampleDoc ''/w/a.vue'' ''{{ msg }}'', exampleDoc ''/w/b.vue'' ''crash''] False)))
     (Dispose ScriptRegionDocuments) = 1"
  using caches_released_exactly_once [of "exampleEnv []"
      "exampleSource [exampleDoc ''/w/a.vue'' ''{{ msg }}'', exampleDoc ''/w/b.vue'' ''crash''] False"]
  by blast

subsection \<open>C8: exceptions of the producers are caught, read failures are not\<close>

text \<open>
  C8. (1) When the construction of the producers throws, the exception is logged, the
  caches are released, the summary line is printed unless \<open>failExit\<close> is set, and the
  run exits with code 1. (2) When a producer throws on document \<open>d\<close>, reached after the
  documents \<open>pre\<close>, the same happens right after the call that threw: nothing is
  re-raised, the run ends in the exit with code 1. (3) When one of the selected files
  cannot be read, \<open>check\<close> ends with the exception of a failed read: only the reads
  have happened, nothing is logged, no cache is acquired, and there is no exit code.
\<close>

theorem producer_exceptions_are_caught:
  "(createModes e (src_workspace s) = Inl err \<longrightarrow>
      trace (getDiagnostics e s) =
        acquired @ [ConsoleError err] @ released @ summaryEvents s 0 @ [ProcessExit 1] \<and>
      hasError (getDiagnostics e s) \<and> exitCode (getDiagnostics e s) = 1) \<and>
   (createModes e (src_workspace s) = Inr m \<and> docs s = pre @ d # post \<and>
    list_all (passed m (src_onlyTemplate s) (src_failExit s)) pre \<and>
    snd (validateDoc m (src_onlyTemplate s) d) = Inl err \<longrightarrow>
      (\<exists>n. trace (getDiagnostics e s) =
         acquired @ concat (map (docEvents e m (src_onlyTemplate s)) pre)
           @ fst (validateDoc m (src_onlyTemplate s) d)
           @ [ConsoleError err] @ released @ summaryEvents s n @ [ProcessExit 1]) \<and>
      hasError (getDiagnostics e s) \<and> exitCode (getDiagnostics e s) = 1) \<and>
   (targetsOf e vl0 opts = Inr targets \<and> p \<in> set targets \<and> readFile e p = Inl err0 \<longrightarrow>
      (\<exists>err' q. q \<in> set targets \<and> readFile e q = Inl err' \<and>
         check e vl0 opts = (map ReadFile targets, Inl err')))"
proof (intro conjI impI)
  assume c: "createModes e (src_workspace s) = Inl err"
  have g: "guarded e s initial = emit [ConsoleError err] (initial\<lparr>hasError := True\<rparr>)"
    using c by (rule guarded_throw_setup)
  show "trace (getDiagnostics e s) =
        acquired @ [ConsoleError err] @ released @ summaryEvents s 0 @ [ProcessExit 1]"
    and "hasError (getDiagnostics e s)" and "exitCode (getDiagnostics e s) = 1"
    by (simp_all add: getDiagnostics_eq g finallyBlock_fields)
next
  assume a: "createModes e (src_workspace s) = Inr m \<and> docs s = pre @ d # post \<and>
    list_all (passed m (src_onlyTemplate s) (src_failExit s)) pre \<and>
    snd (validateDoc m (src_onlyTemplate s) d) = Inl err"
  let ?ot = "src_onlyTemplate s"
  obtain evs where d: "validateDoc m ?ot d = (evs, Inl err)"
    using a by (cases "validateDoc m ?ot d") simp
  from a have pre: "list_all (passed m ?ot (src_failExit s)) pre" by simp
  from loop_at_throw [OF pre d, of e post] obtain a' where
    l: "validationLoop e m ?ot (src_failExit s) (docs s) initial = (Some err, a')"
    and t: "trace a' = acquired @ concat (map (docEvents e m ?ot) pre) @ evs"
    using a by auto
  have g: "guarded e s initial = emit [ConsoleError err] (a'\<lparr>hasError := True\<rparr>)"
    using a l by (simp add: guarded_throw_loop)
  have "trace (getDiagnostics e s) =
         acquired @ concat (map (docEvents e m ?ot) pre) @ fst (validateDoc m ?ot d)
           @ [ConsoleError err] @ released @ summaryEvents s (totalErrors a') @ [ProcessExit 1]"
    using t d by (simp add: getDiagnostics_eq g finallyBlock_fields)
  then show "\<exists>n. trace (getDiagnostics e s) =
         acquired @ concat (map (docEvents e m ?ot) pre) @ fst (validateDoc m ?ot d)
           @ [ConsoleError err] @ released @ summaryEvents s n @ [ProcessExit 1]" by blast
  show "hasError (getDiagnostics e s)" and "exitCode (getDiagnostics e s) = 1"
    by (simp_all add: getDiagnostics_eq g finallyBlock_fields)
next
  assume a: "targetsOf e vl0 opts = Inr targets \<and> p \<in> set targets \<and> readFile e p = Inl err0"
  then obtain err' q where r: "readAll e targets = Inl err'" and q: "q \<in> set targets" "readFile e q = Inl err'"
    using readAll_fails [of p targets e err0] by blast
  have "check e vl0 opts = (map ReadFile targets, Inl err')"
    using a r by (simp add: check_eq)
  with q show "\<exists>err' q. q \<in> set targets \<and> readFile e q = Inl err' \<and>
         check e vl0 opts = (map ReadFile targets, Inl err')" by blast
qed

text \<open>
  The theorem at three runs: the construction of the producers throws; the template
  producer throws on the second of three documents; the second of two explicit files
  does not exist.
\<close>

theorem producer_exceptions_are_caught_witness:
  "exitCode (getDiagnostics throwingEnv (exampleSource [] False)) = 1 \<and>
   exitCode (getDiagnostics (exampleEnv [])
      (exampleSource [exampleDoc ''/w/a.vue'' ''ok'', exampleDoc ''/w/b.vue'' ''crash'',
                      exampleDoc ''/w/c.vue'' ''ok''] False)) = 1 \<and>
   (\<exists>err. check (exampleEnv twoFiles) [''vue'']
            (exampleOptions\<lparr>files := Some [''/w/a.vue'', ''/w/missing.vue'']\<rparr>) =
          ([ReadFile ''/w/a.vue'', ReadFile ''/w/missing.vue''], Inl err))"
proof -
  let ?a = "exampleDoc ''/w/a.vue'' ''ok''"
  let ?b = "exampleDoc ''/w/b.vue'' ''crash''"
  let ?c = "exampleDoc ''/w/c.vue'' ''ok''"
  let ?s = "exampleSource [?a, ?b, ?c] False"
  let ?opts = "exampleOptions\<lparr>files := Some [''/w/a.vue'', ''/w/missing.vue'']\<rparr>"
  have 1: "createModes throwingEnv (src_workspace (exampleSource [] False)) = Inl (Thrown ''no project'')"
    by (simp add: throwingEnv_def)
  have m2: "createModes (exampleEnv []) (src_workspace ?s) = Inr exampleModes"
    by (simp add: exampleEnv_def)
  have d2: "docs ?s = [?a] @ ?b # [?c] \<and>
           list_all (passed exampleModes (src_onlyTemplate ?s) (src_failExit ?s)) [?a] \<and>
           snd (validateDoc exampleModes (src_onlyTemplate ?s) ?b) = Inl (Thrown ''template'')"
    by code_simp
  note 2 = conjI [OF m2 d2]
  have 3: "targetsOf (exampleEnv twoFiles) [''vue''] ?opts = Inr [''/w/a.vue'', ''/w/missing.vue''] \<and>
           ''/w/missing.vue'' \<in> set [''/w/a.vue'', ''/w/missing.vue''] \<and>
           readFile (exampleEnv twoFiles) ''/w/missing.vue'' = Inl (FileReadError ''/w/missing.vue'')"
    by code_simp
  note t = producer_exceptions_are_caught
  from t [of throwingEnv "exampleSource [] False" "Thrown ''no project''"] 1
  have "exitCode (getDiagnostics throwingEnv (exampleSource [] False)) = 1" by blast
  moreover from t [of "exampleEnv []" ?s "Thrown ''template''" exampleModes "[?a]" ?b "[?c]"] 2
  have "exitCode (getDiagnostics (exampleEnv []) ?s) = 1" by blast
  moreover have "\<exists>err. check (exampleEnv twoFiles) [''vue''] ?opts =
          ([ReadFile ''/w/a.vue'', ReadFile ''/w/missing.vue''], Inl err)"
  proof -
    note c = t [of "exampleEnv twoFiles" _ _ _ _ _ _ "[''vue'']" ?opts
      "[''/w/a.vue'', ''/w/missing.vue'']" "''/w/missing.vue''" "FileReadError ''/w/missing.vue''",
      THEN conjunct2, THEN conjunct2]
    from c 3 obtain err where "check (exampleEnv twoFiles) [''vue''] ?opts =
          (map ReadFile [''/w/a.vue'', ''/w/missing.vue''], Inl err)" by blast
    then show ?thesis by simp
  qed
  ultimately show ?thesis by blast
qed

subsection \<open>C9: the summary line\<close>

text \<open>
  C9, as amended. For every run of \<open>getDiagnostics\<close> in which \<open>failExit\<close> is not set,
  whatever the producers do: the trace ends with the summary line, made of the counted
  diagnostics and of the number of documents, and the exit; no other event of the run is
  a summary line, so exactly one is printed. A run over zero documents prints
  \<open>Found: 0 errors in 0 file(s)\<close>; it exits with code 0 when the producers could be
  constructed.
\<close>

theorem summary_line_once:
  assumes "\<not> src_failExit s"
  shows "(\<exists>pre. trace (getDiagnostics e s) =
            pre @ [PrintMessage (summaryLine (totalErrors (getDiagnostics e s)) (length (docs s))),
                   ProcessExit (exitCode (getDiagnostics e s))]
          \<and> filter isSummaryLine pre = [])
       \<and> length (filter isSummaryLine (trace (getDiagnostics e s))) = 1
       \<and> (docs s = [] \<longrightarrow>
            PrintMessage ''Found: 0 errors in 0 file(s)'' \<in> set (trace (getDiagnostics e s)))
       \<and> (docs s = [] \<and> (\<exists>m. createModes e (src_workspace s) = Inr m) \<longrightarrow>
            trace (getDiagnostics e s) =
              acquired @ released @ [PrintMessage ''Found: 0 errors in 0 file(s)'', ProcessExit 0]
            \<and> exitCode (getDiagnostics e s) = 0)"
proof -
  let ?r = "getDiagnostics e s"
  obtain mid where g: "trace (guarded e s initial) = acquired @ mid" and b: "list_all isBodyEvent mid"
    using guarded_trace by blast
  let ?pre = "acquired @ mid @ released"
  have t: "trace ?r = ?pre @ [PrintMessage (summaryLine (totalErrors ?r) (length (docs s))),
                               ProcessExit (exitCode ?r)]"
    using g assms by (simp add: getDiagnostics_eq finallyBlock_fields summaryEvents_def)
  have p: "filter isSummaryLine ?pre = []"
    using body_no_summary [OF b] by (simp add: acquired_def released_def)
  have 1: "\<exists>pre. trace ?r = pre @ [PrintMessage (summaryLine (totalErrors ?r) (length (docs s))),
                   ProcessExit (exitCode ?r)] \<and> filter isSummaryLine pre = []"
    using t p by blast
  have 2: "length (filter isSummaryLine (trace ?r)) = 1"
    by (subst t) (rule summary_tail [OF p])
  have 3: "PrintMessage ''Found: 0 errors in 0 file(s)'' \<in> set (trace ?r)" if "docs s = []"
  proof -
    have "totalErrors ?r = 0" using guarded_no_docs [OF that, of e]
      by (simp add: getDiagnostics_eq finallyBlock_fields)
    then show ?thesis using that by (subst t) (simp add: summaryLine_zero)
  qed
  have 4: "trace ?r = acquired @ released @ [PrintMessage ''Found: 0 errors in 0 file(s)'', ProcessExit 0]
            \<and> exitCode ?r = 0"
    if "docs s = [] \<and> (\<exists>m. createModes e (src_workspace s) = Inr m)"
  proof -
    from that guarded_no_docs [of s e] have "guarded e s initial = initial" by blast
    then show ?thesis using that assms
      by (simp add: getDiagnostics_eq finallyBlock_fields summaryEvents_def summaryLine_zero)
  qed
  from 1 2 3 4 show ?thesis by blast
qed

text \<open>The theorem at the run over no document in the example environment.\<close>

theorem summary_line_once_witness:
  "\<not> src_failExit (exampleSource [] False) \<and>
   trace (getDiagnostics (exampleEnv []) (exampleSource [] False)) =
      acquired @ released @ [PrintMessage ''Found: 0 errors in 0 file(s)'', ProcessExit 0] \<and>
   exitCode (getDiagnostics (exampleEnv []) (exampleSource [] False)) = 0"
proof -
  have 1: "\<not> src_failExit (exampleSource [] False)" by (simp add: exampleSource_def)
  have 2: "docs (exampleSource [] False) = [] \<and>
    (\<exists>m. createModes (exampleEnv []) (src_workspace (exampleSource [] False)) = Inr m)"
    by (simp add: exampleSource_def exampleEnv_def)
  from summary_line_once [OF 1, of "exampleEnv []"] 1 2 show ?thesis by blast
qed

text \<open>
  C9 as stated fails on the exit code: over zero documents, when the construction of
  the producers throws, the summary line is the same and the exit code is 1.
\<close>

theorem zero_documents_exit_one:
  "docs (exampleSource [] False) = [] \<and> \<not> src_failExit (exampleSource [] False) \<and>
   trace (getDiagnostics throwingEnv (exampleSource [] False)) =
     [GetLanguageModelCache DocumentRegions, GetLanguageModelCache ScriptRegionDocuments,
      ConsoleError (Thrown ''no project''),
      Dispose DocumentRegions, Dispose ScriptRegionDocuments,
      PrintMessage ''Found: 0 errors in 0 file(s)'', ProcessExit 1] \<and>
   exitCode (getDiagnostics throwingEnv (exampleSource [] False)) = 1"
  by code_simp

subsection \<open>C10: exclusion entries are read as patterns\<close>

text \<open>
  C10. There is an exclusion entry containing a dot and a candidate path that does not
  begin with the entry (which resolves to itself) and is dropped all the same; and
  there is an exclusion entry containing an opening parenthesis for which the
  construction of the pattern throws a syntax error during selection, so that \<open>traverse\<close>
  and \<open>check\<close> end with this exception before any file is read.
\<close>

theorem exclusion_entries_are_patterns:
  "(\<exists>entry candidate.
      CHR ''.'' \<in> set entry \<and> \<not> prefix entry candidate \<and>
      path_resolve (exampleEnv [(candidate, ''ok'')]) entry = entry \<and>
      traverse (exampleEnv [(candidate, ''ok'')]) [''vue''] ''/w'' False [] (Some [entry]) = ([], Inr [])) \<and>
   (\<exists>entry candidate.
      CHR ''('' \<in> set entry \<and>
      traverse (exampleEnv [(candidate, ''ok'')]) [''vue''] ''/w'' False [] (Some [entry]) =
        ([], Inl RegExpSyntaxError) \<and>
      check (exampleEnv [(candidate, ''ok'')]) [''vue''] (exampleOptions\<lparr>excludeDir := Some (OneDir entry)\<rparr>) =
        ([], Inl RegExpSyntaxError))"
proof (intro conjI)
  have "CHR ''.'' \<in> set ''/w/a.b'' \<and> \<not> prefix ''/w/a.b'' ''/w/axb/c.vue'' \<and>
      path_resolve (exampleEnv [(''/w/axb/c.vue'', ''ok'')]) ''/w/a.b'' = ''/w/a.b'' \<and>
      traverse (exampleEnv [(''/w/axb/c.vue'', ''ok'')]) [''vue''] ''/w'' False [] (Some [''/w/a.b'']) = ([], Inr [])"
    by code_simp
  then show "\<exists>entry candidate.
      CHR ''.'' \<in> set entry \<and> \<not> prefix entry candidate \<and>
      path_resolve (exampleEnv [(candidate, ''ok'')]) entry = entry \<and>
      traverse (exampleEnv [(candidate, ''ok'')]) [''vue''] ''/w'' False [] (Some [entry]) = ([], Inr [])"
    by blast
next
  have "CHR ''('' \<in> set ''/w/(old'' \<and>
      traverse (exampleEnv [(''/w/(old/c.vue'', ''ok'')]) [''vue''] ''/w'' False [] (Some [''/w/(old'']) =
        ([], Inl RegExpSyntaxError) \<and>
      check (exampleEnv [(''/w/(old/c.vue'', ''ok'')]) [''vue''] (exampleOptions\<lparr>excludeDir := Some (OneDir ''/w/(old'')\<rparr>) =
        ([], Inl RegExpSyntaxError)"
    by code_simp
  then show "\<exists>entry candidate.
      CHR ''('' \<in> set entry \<and>
      traverse (exampleEnv [(candidate, ''ok'')]) [''vue''] ''/w'' False [] (Some [entry]) =
        ([], Inl RegExpSyntaxError) \<and>
      check (exampleEnv [(candidate, ''ok'')]) [''vue''] (exampleOptions\<lparr>excludeDir := Some (OneDir entry)\<rparr>) =
        ([], Inl RegExpSyntaxError)"
    by blast
qed

end
